theory Spec2Isabelle
  imports Main "HOL-Library.Word" "HOL-Library.Sublist"
begin

unbundle bit_operations_syntax

section \<open>JavaScript numbers, bitwise operators and typed arrays\<close>

text \<open>
  The decoder of \<^verbatim>\<open>qoi.js\<close> computes with JavaScript Numbers that are always integers
  here, so a Number is an \<open>int\<close>. The bitwise operators convert their operands to signed
  32-bit integers (\<open>ToInt32\<close>) and return one; that conversion is written out, since the
  header parser depends on it. The elements of a \<open>Uint8Array\<close> or \<open>Uint8ClampedArray\<close>
  are bytes (\<open>8 word\<close>); reading one yields its unsigned value.
\<close>

definition ToInt32 :: "int \<Rightarrow> int" where
  "ToInt32 x = signed_take_bit 31 x"

text \<open>\<^verbatim>\<open>x << n\<close>\<close>
definition js_shl :: "int \<Rightarrow> nat \<Rightarrow> int" where
  "js_shl x n = ToInt32 (push_bit (n mod 32) (ToInt32 x))"

text \<open>\<^verbatim>\<open>x >> n\<close>\<close>
definition js_sar :: "int \<Rightarrow> nat \<Rightarrow> int" where
  "js_sar x n = drop_bit (n mod 32) (ToInt32 x)"

text \<open>\<^verbatim>\<open>x | y\<close>\<close>
definition js_bor :: "int \<Rightarrow> int \<Rightarrow> int" where
  "js_bor x y = ToInt32 x OR ToInt32 y"

text \<open>\<^verbatim>\<open>x & y\<close>\<close>
definition js_band :: "int \<Rightarrow> int \<Rightarrow> int" where
  "js_band x y = ToInt32 x AND ToInt32 y"

text \<open>\<^verbatim>\<open>x % y\<close> for a positive divisor: the result takes the sign of the dividend.\<close>
definition js_rem :: "int \<Rightarrow> int \<Rightarrow> int" where
  "js_rem x y = (if x < 0 then - ((- x) mod y) else x mod y)"

type_synonym Uint8Array = "8 word list"
type_synonym Uint8ClampedArray = "8 word list"

text \<open>\<^verbatim>\<open>a[i]\<close> read as a Number (every read of the decoder is inside the array).\<close>
definition rd :: "8 word list \<Rightarrow> nat \<Rightarrow> int" where
  "rd a i = uint (a ! i)"

text \<open>The conversion of a stored Number: modulo 256 for \<open>Uint8Array\<close>, clamped to
  \<open>0..255\<close> for \<open>Uint8ClampedArray\<close>. A store outside the array is ignored by
  JavaScript, as \<open>xs[i := v]\<close> is in HOL.\<close>
definition ToUint8 :: "int \<Rightarrow> 8 word" where
  "ToUint8 v = word_of_int v"

definition ToUint8Clamp :: "int \<Rightarrow> 8 word" where
  "ToUint8Clamp v = (if v < 0 then 0 else if 255 < v then 255 else word_of_int v)"

text \<open>The decoder's failures. The source throws \<^verbatim>\<open>Error\<close> objects told apart by their
  message: "QOI header magic bytes do not match", "Unrecognised channels mode in header",
  "Unrecognised colorsace mode in header" and "Trailer bytes mismatch"; the typed-array
  operations throw \<^verbatim>\<open>RangeError\<close>, and reading a property of \<^verbatim>\<open>undefined\<close> throws
  \<^verbatim>\<open>TypeError\<close>.\<close>
datatype error =
    HeaderMagicMismatch
  | UnsupportedChannelMode
  | UnsupportedColorspaceMode
  | TrailerMismatch
  | RangeError
  | TypeError

text \<open>\<^verbatim>\<open>target.set(source, offset)\<close>: a \<^verbatim>\<open>RangeError\<close> when the source does not fit.\<close>
definition typed_set :: "8 word list \<Rightarrow> 8 word list \<Rightarrow> nat \<Rightarrow> error + 8 word list" where
  "typed_set target source offset =
     (if length source + offset > length target then Inl RangeError
      else Inr (take offset target @ source @ drop (offset + length source) target))"

text \<open>\<^verbatim>\<open>a.slice(start, end)\<close> for \<open>0 \<le> start \<le> end\<close> (here \<open>stop\<close>); the end is cut
  at the array's length.\<close>
definition typed_slice :: "8 word list \<Rightarrow> nat \<Rightarrow> nat \<Rightarrow> 8 word list" where
  "typed_slice a start stop = take (stop - start) (drop start a)"

text \<open>\<^verbatim>\<open>new Uint8ClampedArray(n)\<close>: \<open>ToIndex\<close> refuses a negative length and one above
  \<open>2^53 - 1\<close>. For the lengths that are accepted the product \<open>width * height * 4\<close> of two
  32-bit integers is exact in double precision, and an inexact product is above \<open>2^53\<close>
  either way. An allocation failure of the engine for lack of memory is outside the model.\<close>
definition new_Uint8ClampedArray :: "int \<Rightarrow> error + Uint8ClampedArray" where
  "new_Uint8ClampedArray n =
     (if n < 0 \<or> 2 ^ 53 - 1 < n then Inl RangeError else Inr (replicate (nat n) 0))"

section \<open>Constants\<close>

definition QOI_HEADER_MAGIC :: Uint8Array where
  "QOI_HEADER_MAGIC = map of_char ''qoif''"

definition QOI_HEADER_SIZE :: nat where
  "QOI_HEADER_SIZE = length QOI_HEADER_MAGIC + (32 + 32 + 8 + 8) div 8"

definition CHANNELS_RGB :: int where "CHANNELS_RGB = 3"
definition CHANNELS_RGBA :: int where "CHANNELS_RGBA = 4"
definition SUPPORTED_CHANNEL_MODES :: "int list" where
  "SUPPORTED_CHANNEL_MODES = [CHANNELS_RGB, CHANNELS_RGBA]"

definition COLORSPACE_SRGB :: int where "COLORSPACE_SRGB = 0"
definition COLORSPACE_LINEAR :: int where "COLORSPACE_LINEAR = 1"
definition SUPPORTED_COLORSPACE_MODES :: "int list" where
  "SUPPORTED_COLORSPACE_MODES = [COLORSPACE_SRGB, COLORSPACE_LINEAR]"

definition OP_RGB_BITS :: int where "OP_RGB_BITS = 254"
definition OP_RGBA_BITS :: int where "OP_RGBA_BITS = 255"
definition OP_INDEX_BITS :: int where "OP_INDEX_BITS = 0"
definition OP_DIFF_BITS :: int where "OP_DIFF_BITS = 64"
definition OP_LUMA_BITS :: int where "OP_LUMA_BITS = 128"
definition OP_RUN_BITS :: int where "OP_RUN_BITS = 192"

text \<open>The numeric ids \<^verbatim>\<open>OP_NONE_ID = -1\<close>, \<^verbatim>\<open>OP_HEAD_ID = -2\<close>, \<^verbatim>\<open>OP_RGB_ID = 1\<close> ...
  \<^verbatim>\<open>OP_RUN_ID = 6\<close> are pairwise different and only ever compared with \<^verbatim>\<open>===\<close>.\<close>
datatype op_id =
    OP_NONE_ID | OP_HEAD_ID | OP_RGB_ID | OP_RGBA_ID
  | OP_INDEX_ID | OP_DIFF_ID | OP_LUMA_ID | OP_RUN_ID

definition INDEX_ARRAY_SIZE :: nat where "INDEX_ARRAY_SIZE = 64"

section \<open>The header parser\<close>

record qoi_header =
  h_width :: int
  h_height :: int
  h_channels :: int
  h_colorspace :: int

text \<open>A JavaScript array is an object, and every object is truthy.\<close>
definition truthy :: "int list \<Rightarrow> bool" where
  "truthy a = True"

text \<open>\<^verbatim>\<open>parseQoiHeaderBytes(buffer)\<close>; its only caller passes the 14-byte
  \<^verbatim>\<open>headerBuffer\<close>.\<close>
definition parseQoiHeaderBytes :: "Uint8Array \<Rightarrow> error + qoi_header" where
  "parseQoiHeaderBytes buffer =
     (if \<not> list_all (\<lambda>(i, byte). rd buffer i = uint byte) (enumerate 0 QOI_HEADER_MAGIC)
      then Inl HeaderMagicMismatch
      else
        let width = js_bor (js_bor (js_bor (js_shl (rd buffer 4) 24) (js_shl (rd buffer 5) 16))
                      (js_shl (rd buffer 6) 8)) (rd buffer 7);
            height = js_bor (js_bor (js_bor (js_shl (rd buffer 8) 24) (js_shl (rd buffer 9) 16))
                      (js_shl (rd buffer 10) 8)) (rd buffer 11);
            channels = rd buffer 12
        in if \<not> (channels \<in> set SUPPORTED_CHANNEL_MODES) then Inl UnsupportedChannelMode
           else
             let colorspace = rd buffer 13
             in if \<not> truthy SUPPORTED_COLORSPACE_MODES then Inl UnsupportedColorspaceMode
                else Inr \<lparr>h_width = width, h_height = height,
                          h_channels = channels, h_colorspace = colorspace\<rparr>)"

section \<open>The streaming decoder\<close>

text \<open>The local variables of \<^verbatim>\<open>getQoiPixelData\<close>, which live across the chunks of the
  stream. A variable declared without a value is \<^verbatim>\<open>undefined\<close> (\<open>None\<close>) until the
  header has been parsed. The diagnostic \<^verbatim>\<open>log\<close> array is only appended to and never
  read by the decoder; it is left out.\<close>
record state =
  seenHeader :: bool
  headerBuffer :: Uint8Array
  headerBufferOffset :: nat
  width :: "int option"
  height :: "int option"
  channels :: "int option"
  colorspace :: "int option"
  pixels :: "Uint8ClampedArray option"
  pixelOffset :: nat
  lastPixel :: Uint8ClampedArray
  indexValues :: Uint8ClampedArray
  op :: op_id
  opBuffer :: Uint8ClampedArray
  opOffset :: nat

definition init_state :: state where
  "init_state =
     \<lparr>seenHeader = False,
      headerBuffer = replicate QOI_HEADER_SIZE 0,
      headerBufferOffset = 0,
      width = None, height = None, channels = None, colorspace = None,
      pixels = None,
      pixelOffset = 0,
      lastPixel = [0, 0, 0, 255],
      indexValues = replicate (INDEX_ARRAY_SIZE * 4) 0,
      op = OP_HEAD_ID,
      opBuffer = replicate 4 0,
      opOffset = 0\<rparr>"

text \<open>Lines 140-151: the tag byte chooses the opcode when none is being assembled.\<close>
definition select_op :: "op_id \<Rightarrow> int \<Rightarrow> op_id" where
  "select_op op0 byte =
     (if op0 = OP_NONE_ID then
        let op1 = (if byte = OP_RGB_BITS then OP_RGB_ID else op0);
            op2 = (if byte = OP_RGBA_BITS then OP_RGBA_ID else op1)
        in if op2 = OP_NONE_ID then
             let twoBitTag = js_band byte 192;
                 op3 = (if twoBitTag = OP_INDEX_BITS then OP_INDEX_ID else op2);
                 op4 = (if twoBitTag = OP_DIFF_BITS then OP_DIFF_ID else op3);
                 op5 = (if twoBitTag = OP_LUMA_BITS then OP_LUMA_ID else op4);
                 op6 = (if twoBitTag = OP_RUN_BITS then OP_RUN_ID else op5)
             in op6
           else op2
      else op0)"

text \<open>\<^verbatim>\<open>pixels.set(lastPixel, pixelOffset); pixelOffset += 4\<close>\<close>
definition emit_pixel :: "state \<Rightarrow> error + state" where
  "emit_pixel s =
     (case pixels s of
        None \<Rightarrow> Inl TypeError
      | Some px \<Rightarrow>
          (case typed_set px (lastPixel s) (pixelOffset s) of
             Inl e \<Rightarrow> Inl e
           | Inr px' \<Rightarrow> Inr (s\<lparr>pixels := Some px', pixelOffset := pixelOffset s + 4\<rparr>)))"

text \<open>\<^verbatim>\<open>lastPixel.set(source)\<close>\<close>
definition set_lastPixel :: "state \<Rightarrow> 8 word list \<Rightarrow> error + state" where
  "set_lastPixel s source =
     (case typed_set (lastPixel s) source 0 of
        Inl e \<Rightarrow> Inl e
      | Inr lp \<Rightarrow> Inr (s\<lparr>lastPixel := lp\<rparr>))"

text \<open>Lines 242-256, the end of the loop body, reached by every opcode that has been
  completed: the previous pixel is stored in the cache slot of its hash, and the opcode
  state is cleared.\<close>
definition store_and_reset :: "state \<Rightarrow> error + state" where
  "store_and_reset s =
     (let index = js_rem (rd (lastPixel s) 0 * 3 + rd (lastPixel s) 1 * 5
                          + rd (lastPixel s) 2 * 7 + rd (lastPixel s) 3 * 11) 64
      in case typed_set (indexValues s) (lastPixel s) (nat (js_shl index 2)) of
           Inl e \<Rightarrow> Inl e
         | Inr iv \<Rightarrow>
             Inr (s\<lparr>indexValues := iv, op := OP_NONE_ID,
                     opBuffer := map (\<lambda>_. 0) (opBuffer s), opOffset := 0\<rparr>))"

text \<open>Lines 153-166. \<open>Inr (s, True)\<close> stands for \<^verbatim>\<open>continue\<close> in the blocks below,
  \<open>Inr (s, False)\<close> for falling through to the end of the loop body.\<close>
definition do_RGB :: "state \<Rightarrow> int \<Rightarrow> error + state \<times> bool" where
  "do_RGB s byte =
     (let s1 = (if opOffset s > 0
                then s\<lparr>opBuffer := (opBuffer s)[opOffset s - 1 := ToUint8Clamp byte]\<rparr> else s);
          s2 = s1\<lparr>opOffset := opOffset s1 + 1\<rparr>
      in if opOffset s2 \<le> 3 then Inr (s2, True)
         else
           let s3 = s2\<lparr>opBuffer := (opBuffer s2)[3 := ToUint8Clamp (rd (lastPixel s2) 3)]\<rparr>
           in case set_lastPixel s3 (opBuffer s3) of
                Inl e \<Rightarrow> Inl e
              | Inr s4 \<Rightarrow>
                  (case emit_pixel s4 of Inl e \<Rightarrow> Inl e | Inr s5 \<Rightarrow> Inr (s5, False)))"

text \<open>Lines 168-180.\<close>
definition do_RGBA :: "state \<Rightarrow> int \<Rightarrow> error + state \<times> bool" where
  "do_RGBA s byte =
     (let s1 = (if opOffset s > 0
                then s\<lparr>opBuffer := (opBuffer s)[opOffset s - 1 := ToUint8Clamp byte]\<rparr> else s);
          s2 = s1\<lparr>opOffset := opOffset s1 + 1\<rparr>
      in if opOffset s2 \<le> 4 then Inr (s2, True)
         else
           case set_lastPixel s2 (opBuffer s2) of
             Inl e \<Rightarrow> Inl e
           | Inr s3 \<Rightarrow>
               (case emit_pixel s3 of Inl e \<Rightarrow> Inl e | Inr s4 \<Rightarrow> Inr (s4, False)))"

text \<open>Lines 182-190.\<close>
definition do_INDEX :: "state \<Rightarrow> int \<Rightarrow> error + state \<times> bool" where
  "do_INDEX s byte =
     (let index = nat (js_shl (js_band byte 63) 2)
      in case set_lastPixel s (typed_slice (indexValues s) index (index + 4)) of
           Inl e \<Rightarrow> Inl e
         | Inr s1 \<Rightarrow>
             (case emit_pixel s1 of Inl e \<Rightarrow> Inl e | Inr s2 \<Rightarrow> Inr (s2, False)))"

text \<open>Lines 199-201 and 221-223: the three channel updates of DIFF and LUMA.\<close>
definition add_diffs :: "state \<Rightarrow> int \<Rightarrow> int \<Rightarrow> int \<Rightarrow> state" where
  "add_diffs s diffRed diffGreen diffBlue =
     (let lp0 = (lastPixel s)
                  [0 := ToUint8Clamp (js_band (js_bor (rd (lastPixel s) 0 + diffRed) 256) 255)];
          lp1 = lp0[1 := ToUint8Clamp (js_band (js_bor (rd lp0 1 + diffGreen) 256) 255)];
          lp2 = lp1[2 := ToUint8Clamp (js_band (js_bor (rd lp1 2 + diffBlue) 256) 255)]
      in s\<lparr>lastPixel := lp2\<rparr>)"

text \<open>Lines 192-205.\<close>
definition do_DIFF :: "state \<Rightarrow> int \<Rightarrow> error + state \<times> bool" where
  "do_DIFF s byte =
     (let diffRed = - 2 + js_sar (js_band byte 48) 4;
          diffGreen = - 2 + js_sar (js_band byte 12) 2;
          diffBlue = - 2 + js_band byte 3
      in case emit_pixel (add_diffs s diffRed diffGreen diffBlue) of
           Inl e \<Rightarrow> Inl e
         | Inr s1 \<Rightarrow> Inr (s1, False))"

text \<open>Lines 207-227.\<close>
definition do_LUMA :: "state \<Rightarrow> int \<Rightarrow> error + state \<times> bool" where
  "do_LUMA s byte =
     (if opOffset s = 0
      then Inr (s\<lparr>opBuffer := (opBuffer s)[0 := ToUint8Clamp (js_band byte 63)],
                  opOffset := opOffset s + 1\<rparr>, True)
      else
        let diffGreen = - 32 + rd (opBuffer s) 0;
            diffRed = diffGreen + (- 8 + js_sar (js_band byte 240) 4);
            diffBlue = diffGreen + (- 8 + js_band byte 15)
        in case emit_pixel (add_diffs s diffRed diffGreen diffBlue) of
             Inl e \<Rightarrow> Inl e
           | Inr s1 \<Rightarrow> Inr (s1, False))"

text \<open>Lines 232-239: the loop counts \<^verbatim>\<open>runLength\<close> down to 0.\<close>
fun run_loop :: "nat \<Rightarrow> state \<Rightarrow> error + state" where
  "run_loop 0 s = Inr s"
| "run_loop (Suc runLength) s =
     (case emit_pixel s of Inl e \<Rightarrow> Inl e | Inr s' \<Rightarrow> run_loop runLength s')"

text \<open>Lines 229-240.\<close>
definition do_RUN :: "state \<Rightarrow> int \<Rightarrow> error + state \<times> bool" where
  "do_RUN s byte =
     (case run_loop (nat (js_band byte 63 + 1)) s of
        Inl e \<Rightarrow> Inl e
      | Inr s1 \<Rightarrow> Inr (s1, False))"

text \<open>Lines 106-121: a byte of the header.\<close>
definition header_byte :: "state \<Rightarrow> int \<Rightarrow> error + state" where
  "header_byte s byte =
     (let s1 = s\<lparr>headerBuffer := (headerBuffer s)[headerBufferOffset s := ToUint8 byte],
                 headerBufferOffset := headerBufferOffset s + 1\<rparr>
      in if headerBufferOffset s1 \<noteq> 14 then Inr s1
         else
           case parseQoiHeaderBytes (headerBuffer s1) of
             Inl e \<Rightarrow> Inl e
           | Inr h \<Rightarrow>
               (case new_Uint8ClampedArray (h_width h * h_height h * 4) of
                  Inl e \<Rightarrow> Inl e
                | Inr px \<Rightarrow>
                    Inr (s1\<lparr>width := Some (h_width h), height := Some (h_height h),
                            channels := Some (h_channels h),
                            colorspace := Some (h_colorspace h),
                            seenHeader := True, pixels := Some px, op := OP_NONE_ID\<rparr>)))"

text \<open>Lines 123-138: a byte that arrives when the pixel buffer is full.\<close>
definition trailer_byte :: "state \<Rightarrow> nat \<Rightarrow> int \<Rightarrow> error + state" where
  "trailer_byte s pixels_length byte =
     (let trailerOffset = pixelOffset s - pixels_length
      in if (trailerOffset < 7 \<and> byte \<noteq> 0) \<or> (trailerOffset = 7 \<and> byte \<noteq> 1)
            \<or> trailerOffset > 7
         then Inl TrailerMismatch
         else Inr (s\<lparr>pixelOffset := pixelOffset s + 1\<rparr>))"

text \<open>Lines 140-256: a byte of the opcode stream. The blocks \<^verbatim>\<open>if (op === ...)\<close> follow
  each other in the source; \<^verbatim>\<open>op\<close> is not assigned between them, so exactly the block
  of the selected opcode runs.\<close>
definition opcode_byte :: "state \<Rightarrow> int \<Rightarrow> error + state" where
  "opcode_byte s byte =
     (let s1 = s\<lparr>op := select_op (op s) byte\<rparr>;
          r = (case op s1 of
                 OP_RGB_ID \<Rightarrow> do_RGB s1 byte
               | OP_RGBA_ID \<Rightarrow> do_RGBA s1 byte
               | OP_INDEX_ID \<Rightarrow> do_INDEX s1 byte
               | OP_DIFF_ID \<Rightarrow> do_DIFF s1 byte
               | OP_LUMA_ID \<Rightarrow> do_LUMA s1 byte
               | OP_RUN_ID \<Rightarrow> do_RUN s1 byte
               | _ \<Rightarrow> Inr (s1, False))
      in case r of
           Inl e \<Rightarrow> Inl e
         | Inr (s2, continue) \<Rightarrow> if continue then Inr s2 else store_and_reset s2)"

text \<open>The body of \<^verbatim>\<open>for (const byte of bytes)\<close>, lines 98-257.\<close>
definition process_byte :: "state \<Rightarrow> 8 word \<Rightarrow> error + state" where
  "process_byte s b =
     (let byte = uint b
      in if \<not> seenHeader s then header_byte s byte
         else
           case pixels s of
             None \<Rightarrow> Inl TypeError
           | Some px \<Rightarrow>
               if pixelOffset s \<ge> length px then trailer_byte s (length px) byte
               else opcode_byte s byte)"

text \<open>\<^verbatim>\<open>for (const byte of bytes)\<close>: the bytes of one chunk, in order.\<close>
fun process_chunk :: "state \<Rightarrow> Uint8Array \<Rightarrow> error + state" where
  "process_chunk s [] = Inr s"
| "process_chunk s (b # bytes) =
     (case process_byte s b of Inl e \<Rightarrow> Inl e | Inr s' \<Rightarrow> process_chunk s' bytes)"

text \<open>The outer loop, lines 91-258: the reader hands over the chunks one by one and then
  signals the end. The stream of a file is finite: it is the list of its chunks.\<close>
fun read_loop :: "state \<Rightarrow> Uint8Array list \<Rightarrow> error + state" where
  "read_loop s [] = Inr s"
| "read_loop s (bytes # stream) =
     (case process_chunk s bytes of Inl e \<Rightarrow> Inl e | Inr s' \<Rightarrow> read_loop s' stream)"

text \<open>The object returned at line 260, without its \<^verbatim>\<open>log\<close>.\<close>
record pixel_data =
  r_width :: "int option"
  r_height :: "int option"
  r_pixels :: "Uint8ClampedArray option"

definition getQoiPixelData :: "Uint8Array list \<Rightarrow> error + pixel_data" where
  "getQoiPixelData stream =
     (case read_loop init_state stream of
        Inl e \<Rightarrow> Inl e
      | Inr s \<Rightarrow> Inr \<lparr>r_width = width s, r_height = height s, r_pixels = pixels s\<rparr>)"

section \<open>Definitions used to state the properties\<close>

text \<open>Modelled from the spec: the 14-byte serialization of a header (the repository has
  no encoder). Section 6 of the specification gives the layout: the 4-byte magic, width
  and height as big-endian unsigned 32-bit integers, one byte for the channels and one
  for the colorspace.\<close>
definition serializeQoiHeader :: "qoi_header \<Rightarrow> Uint8Array" where
  "serializeQoiHeader h =
     QOI_HEADER_MAGIC @
     [word_of_int (h_width h div 2 ^ 24), word_of_int (h_width h div 2 ^ 16),
      word_of_int (h_width h div 2 ^ 8), word_of_int (h_width h),
      word_of_int (h_height h div 2 ^ 24), word_of_int (h_height h div 2 ^ 16),
      word_of_int (h_height h div 2 ^ 8), word_of_int (h_height h),
      word_of_int (h_channels h), word_of_int (h_colorspace h)]"

text \<open>The typed arrays of the decoder keep the length they were created with.\<close>
definition wf_state :: "state \<Rightarrow> bool" where
  "wf_state s \<longleftrightarrow>
     length (headerBuffer s) = 14 \<and> length (lastPixel s) = 4 \<and>
     length (indexValues s) = 256 \<and> length (opBuffer s) = 4"

text \<open>The slot of a pixel in the Color Cache, \<open>(R * 3 + G * 5 + B * 7 + A * 11) mod 64\<close>,
  as a natural number; \<open>hash_index\<close> below shows that it is the index lines 242-247
  compute.\<close>
definition pixel_hash :: "8 word list \<Rightarrow> nat" where
  "pixel_hash p = (unat (p ! 0) * 3 + unat (p ! 1) * 5 + unat (p ! 2) * 7 + unat (p ! 3) * 11) mod 64"

text \<open>The decoder has parsed the header and waits for the tag byte of the next opcode.\<close>
definition ready :: "state \<Rightarrow> Uint8ClampedArray \<Rightarrow> bool" where
  "ready s px \<longleftrightarrow>
     wf_state s \<and> seenHeader s \<and> pixels s = Some px \<and> op s = OP_NONE_ID \<and> opOffset s = 0"

text \<open>The trailer in the specification's words (section 6): seven bytes 0 followed by one
  byte 1. The source has no such constant; it checks each byte by its position.\<close>
definition QOI_TRAILER :: Uint8Array where
  "QOI_TRAILER = [0, 0, 0, 0, 0, 0, 0, 1]"

text \<open>After the header: the Pixel Buffer has \<open>width * height * 4\<close> bytes, and the bytes
  from the write offset on are still zero.\<close>
definition buffer_ok :: "int option \<Rightarrow> int option \<Rightarrow> Uint8ClampedArray option \<Rightarrow> nat \<Rightarrow> bool" where
  "buffer_ok w_opt h_opt px_opt offset =
     (case (w_opt, h_opt, px_opt) of
        (Some w, Some h, Some px) \<Rightarrow>
          int (length px) = w * h * 4 \<and> drop offset px = replicate (length px - offset) 0
      | _ \<Rightarrow> False)"

text \<open>What holds in every state the decoder reaches from its initial state.\<close>
definition decoder_inv :: "state \<Rightarrow> bool" where
  "decoder_inv s \<longleftrightarrow>
     wf_state s \<and>
     (if seenHeader s then buffer_ok (width s) (height s) (pixels s) (pixelOffset s)
      else width s = None \<and> height s = None \<and> pixels s = None \<and> pixelOffset s = 0)"

section \<open>Auxiliary lemmas\<close>

subsection \<open>Chunks\<close>

lemma process_chunk_append:
  "process_chunk s (xs @ ys) =
     (case process_chunk s xs of Inl e \<Rightarrow> Inl e | Inr s' \<Rightarrow> process_chunk s' ys)"
  by (induction xs arbitrary: s) (auto split: sum.splits)

lemma read_loop_concat: "read_loop s stream = process_chunk s (concat stream)"
  by (induction stream arbitrary: s) (auto simp: process_chunk_append split: sum.splits)

subsection \<open>Numbers\<close>

lemma ToInt32_id: "- (2 ^ 31) \<le> x \<Longrightarrow> x < 2 ^ 31 \<Longrightarrow> ToInt32 x = x"
  unfolding ToInt32_def by (simp add: signed_take_bit_int_eq_self)

lemma ToInt32_small: "0 \<le> x \<Longrightarrow> x \<le> 256 \<Longrightarrow> ToInt32 x = x"
  by (rule ToInt32_id) simp_all

lemma ToInt32_or: "ToInt32 (x OR y) = ToInt32 x OR ToInt32 y"
  unfolding ToInt32_def by (rule bit_eqI) (simp add: bit_simps)

lemma uint8_lt: "uint (b :: 8 word) < 256"
  using uint_lt2p [of b] by simp

lemma ToInt32_uint8: "ToInt32 (uint (b :: 8 word)) = uint b"
  using uint8_lt [of b] by (intro ToInt32_small) simp_all

lemma ToInt32_numeral_small: "ToInt32 192 = 192" "ToInt32 63 = 63" "ToInt32 48 = 48"
  "ToInt32 12 = 12" "ToInt32 3 = 3" "ToInt32 240 = 240" "ToInt32 15 = 15"
  "ToInt32 256 = 256" "ToInt32 255 = 255"
  by (simp_all add: ToInt32_small)

lemma and_mask_mod: "(x :: int) AND mask n = x mod 2 ^ n"
  by (simp add: take_bit_eq_mask [symmetric] take_bit_eq_mod)

lemma and_63: "(x :: int) AND 63 = x mod 64"
  using and_mask_mod [of x 6] by (simp add: mask_eq_exp_minus_1)

lemma and_255: "(x :: int) AND 255 = x mod 256"
  using and_mask_mod [of x 8] by (simp add: mask_eq_exp_minus_1)

lemma and_15: "(x :: int) AND 15 = x mod 16"
  using and_mask_mod [of x 4] by (simp add: mask_eq_exp_minus_1)

lemma and_3: "(x :: int) AND 3 = x mod 4"
  using and_mask_mod [of x 2] by (simp add: mask_eq_exp_minus_1)

lemma js_band_byte: "0 \<le> m \<Longrightarrow> m \<le> 256 \<Longrightarrow> js_band (uint (b :: 8 word)) m = uint b AND m"
  by (simp add: js_band_def ToInt32_uint8 ToInt32_small)

lemma js_band_byte_63: "js_band (uint (b :: 8 word)) 63 = uint b mod 64"
  by (simp add: js_band_byte and_63)

lemma js_band_byte_15: "js_band (uint (b :: 8 word)) 15 = uint b mod 16"
  by (simp add: js_band_byte and_15)

lemma js_band_byte_3: "js_band (uint (b :: 8 word)) 3 = uint b mod 4"
  by (simp add: js_band_byte and_3)

lemma js_sar_small: "0 \<le> x \<Longrightarrow> x \<le> 256 \<Longrightarrow> n < 32 \<Longrightarrow> js_sar x n = x div 2 ^ n"
  by (simp add: js_sar_def ToInt32_small drop_bit_eq_div)

lemma drop_bit_and_48: "drop_bit 4 ((x :: int) AND 48) = (x div 16) mod 4"
proof -
  have "drop_bit 4 (x AND 48) = drop_bit 4 x AND 3" by simp
  then show ?thesis by (simp only: and_3 drop_bit_eq_div) simp
qed

lemma drop_bit_and_12: "drop_bit 2 ((x :: int) AND 12) = (x div 4) mod 4"
proof -
  have "drop_bit 2 (x AND 12) = drop_bit 2 x AND 3" by simp
  then show ?thesis by (simp only: and_3 drop_bit_eq_div) simp
qed

lemma drop_bit_and_240: "drop_bit 4 ((x :: int) AND 240) = (x div 16) mod 16"
proof -
  have "drop_bit 4 (x AND 240) = drop_bit 4 x AND 15" by simp
  then show ?thesis by (simp only: and_15 drop_bit_eq_div) simp
qed

lemma js_sar_band_48: "js_sar (js_band (uint (b :: 8 word)) 48) 4 = (uint b div 16) mod 4"
proof -
  have "0 \<le> uint b AND 48" "uint b AND 48 \<le> 256"
    using AND_upper2 [of 48 "uint b"] by simp_all
  then have "js_sar (uint b AND 48) 4 = drop_bit 4 (uint b AND 48)"
    by (simp add: js_sar_small drop_bit_eq_div del: drop_bit_and)
  then show ?thesis
    by (simp add: js_band_byte drop_bit_and_48 del: drop_bit_and)
qed

lemma js_sar_band_12: "js_sar (js_band (uint (b :: 8 word)) 12) 2 = (uint b div 4) mod 4"
proof -
  have "0 \<le> uint b AND 12" "uint b AND 12 \<le> 256"
    using AND_upper2 [of 12 "uint b"] by simp_all
  then have "js_sar (uint b AND 12) 2 = drop_bit 2 (uint b AND 12)"
    by (simp add: js_sar_small drop_bit_eq_div del: drop_bit_and)
  then show ?thesis
    by (simp add: js_band_byte drop_bit_and_12 del: drop_bit_and)
qed

lemma js_sar_band_240: "js_sar (js_band (uint (b :: 8 word)) 240) 4 = uint b div 16"
proof -
  have "0 \<le> uint b AND 240" "uint b AND 240 \<le> 256"
    using AND_upper2 [of 240 "uint b"] by simp_all
  then have "js_sar (uint b AND 240) 4 = drop_bit 4 (uint b AND 240)"
    by (simp add: js_sar_small drop_bit_eq_div del: drop_bit_and)
  moreover have "uint b div 16 < 16" "0 \<le> uint b div 16" using uint8_lt [of b] by (simp_all add: div_int_pos_iff)
  ultimately show ?thesis
    by (simp add: js_band_byte drop_bit_and_240 del: drop_bit_and)
qed

text \<open>The wrap-around of lines 199-201 and 221-223.\<close>

lemma wrap_byte:
  assumes "- (2 ^ 31) \<le> v" "v < 2 ^ 31"
  shows "ToUint8Clamp (js_band (js_bor v 256) 255) = word_of_int v"
proof -
  have "js_band (js_bor v 256) 255 = (v OR 256) AND 255"
    using assms by (simp add: js_band_def js_bor_def ToInt32_or ToInt32_id ToInt32_numeral_small)
  also have "\<dots> = take_bit 8 (v OR 256)"
    by (simp only: and_255 take_bit_eq_mod) simp
  also have "\<dots> = take_bit 8 v"
    by simp
  finally have eq: "js_band (js_bor v 256) 255 = v mod 256"
    by (simp add: take_bit_eq_mod)
  have "0 \<le> v mod 256" "v mod 256 < 256" by simp_all
  then have "ToUint8Clamp (v mod 256) = (word_of_int (v mod 256) :: 8 word)"
    by (simp add: ToUint8Clamp_def)
  also have "\<dots> = word_of_int v"
    by (simp add: word_of_int_eq_iff take_bit_eq_mod)
  finally show ?thesis using eq by simp
qed

lemma uint_word_of_int_8: "uint (word_of_int v :: 8 word) = v mod 256"
  by (simp add: uint_word_of_int_eq take_bit_eq_mod)

lemma ToUint8Clamp_uint: "ToUint8Clamp (uint (b :: 8 word)) = b"
  using uint8_lt [of b] by (simp add: ToUint8Clamp_def)

lemma ToUint8_uint: "ToUint8 (uint (b :: 8 word)) = b"
  by (simp add: ToUint8_def)

subsection \<open>Typed arrays\<close>

lemma typed_set_ok:
  "length source + offset \<le> length target \<Longrightarrow>
   typed_set target source offset
     = Inr (take offset target @ source @ drop (offset + length source) target)"
  by (simp add: typed_set_def)

lemma typed_set_fail:
  "length target < length source + offset \<Longrightarrow> typed_set target source offset = Inl RangeError"
  by (simp add: typed_set_def)

lemma typed_set_Inr:
  "typed_set target source offset = Inr r \<Longrightarrow>
   length source + offset \<le> length target \<and>
   r = take offset target @ source @ drop (offset + length source) target"
  by (auto simp: typed_set_def split: if_splits)

lemma typed_set_length: "typed_set target source offset = Inr r \<Longrightarrow> length r = length target"
  by (auto dest!: typed_set_Inr)

lemma typed_set_whole:
  "length source = length target \<Longrightarrow> typed_set target source 0 = Inr source"
  by (simp add: typed_set_def)

lemma js_shl_2_small: "0 \<le> x \<Longrightarrow> x < 64 \<Longrightarrow> js_shl x 2 = 4 * x"
proof -
  assume a: "0 \<le> x" "x < 64"
  then have "ToInt32 x = x" by (intro ToInt32_small) simp_all
  moreover have "ToInt32 (4 * x) = 4 * x" using a by (intro ToInt32_small) simp_all
  ultimately show ?thesis by (simp add: js_shl_def push_bit_eq_mult mult.commute)
qed

lemma hash_index:
  "js_rem (rd p 0 * 3 + rd p 1 * 5 + rd p 2 * 7 + rd p 3 * 11) 64 = int (pixel_hash p)"
proof -
  define n where "n = unat (p ! 0) * 3 + unat (p ! 1) * 5 + unat (p ! 2) * 7 + unat (p ! 3) * 11"
  have e: "rd p 0 * 3 + rd p 1 * 5 + rd p 2 * 7 + rd p 3 * 11 = int n"
    by (simp add: n_def rd_def)
  have h: "pixel_hash p = n mod 64"
    by (simp add: n_def pixel_hash_def)
  have "js_rem (int n) 64 = int (n mod 64)"
    by (simp add: js_rem_def zmod_int)
  then show ?thesis
    unfolding e h .
qed

lemma pixel_hash_lt: "pixel_hash p < 64"
  by (simp add: pixel_hash_def)

lemma store_index: "nat (js_shl (int (pixel_hash p)) 2) = 4 * pixel_hash p"
  using pixel_hash_lt [of p] by (simp add: js_shl_2_small)

subsection \<open>The parts of the loop body\<close>

lemma emit_pixel_ok:
  "pixels s = Some px \<Longrightarrow> length (lastPixel s) + pixelOffset s \<le> length px \<Longrightarrow>
   emit_pixel s
     = Inr (s\<lparr>pixels := Some (take (pixelOffset s) px @ lastPixel s
                               @ drop (pixelOffset s + length (lastPixel s)) px),
               pixelOffset := pixelOffset s + 4\<rparr>)"
  by (simp add: emit_pixel_def typed_set_ok)

lemma emit_pixel_fail:
  "pixels s = Some px \<Longrightarrow> length px < length (lastPixel s) + pixelOffset s \<Longrightarrow>
   emit_pixel s = Inl RangeError"
  by (simp add: emit_pixel_def typed_set_fail)

lemma emit_pixel_Inr:
  "emit_pixel s = Inr s' \<Longrightarrow>
   \<exists>px. pixels s = Some px \<and> length (lastPixel s) + pixelOffset s \<le> length px \<and>
     s' = s\<lparr>pixels := Some (take (pixelOffset s) px @ lastPixel s
                               @ drop (pixelOffset s + length (lastPixel s)) px),
             pixelOffset := pixelOffset s + 4\<rparr>"
  by (auto simp: emit_pixel_def split: option.splits sum.splits dest!: typed_set_Inr)

lemma store_and_reset_ok:
  "length (lastPixel s) = 4 \<Longrightarrow> length (indexValues s) = 256 \<Longrightarrow>
   store_and_reset s
     = Inr (s\<lparr>indexValues := take (4 * pixel_hash (lastPixel s)) (indexValues s) @ lastPixel s
                               @ drop (4 * pixel_hash (lastPixel s) + 4) (indexValues s),
               op := OP_NONE_ID, opBuffer := map (\<lambda>_. 0) (opBuffer s), opOffset := 0\<rparr>)"
  using pixel_hash_lt [of "lastPixel s"]
  unfolding store_and_reset_def hash_index store_index Let_def
  by (simp add: typed_set_ok)

lemma store_and_reset_Inr:
  "store_and_reset s = Inr s' \<Longrightarrow>
   \<exists>iv. length iv = length (indexValues s) \<and>
     s' = s\<lparr>indexValues := iv, op := OP_NONE_ID,
             opBuffer := map (\<lambda>_. 0) (opBuffer s), opOffset := 0\<rparr>"
  by (auto simp: store_and_reset_def Let_def split: sum.splits dest: typed_set_length)

lemma set_lastPixel_Inr:
  "set_lastPixel s source = Inr s' \<Longrightarrow>
   length source \<le> length (lastPixel s) \<and>
   s' = s\<lparr>lastPixel := source @ drop (length source) (lastPixel s)\<rparr>"
  by (auto simp: set_lastPixel_def split: sum.splits dest!: typed_set_Inr)

lemma set_lastPixel_ok:
  "length source = length (lastPixel s) \<Longrightarrow> set_lastPixel s source = Inr (s\<lparr>lastPixel := source\<rparr>)"
  by (simp add: set_lastPixel_def typed_set_whole)

lemma add_diffs_fields:
  "pixels (add_diffs s r g b) = pixels s" "pixelOffset (add_diffs s r g b) = pixelOffset s"
  "indexValues (add_diffs s r g b) = indexValues s" "opBuffer (add_diffs s r g b) = opBuffer s"
  "headerBuffer (add_diffs s r g b) = headerBuffer s"
  "length (lastPixel (add_diffs s r g b)) = length (lastPixel s)"
  "seenHeader (add_diffs s r g b) = seenHeader s"
  "width (add_diffs s r g b) = width s" "height (add_diffs s r g b) = height s"
  by (simp_all add: add_diffs_def Let_def)

lemma add_diffs_alpha: "lastPixel (add_diffs s r g b) ! 3 = lastPixel s ! 3"
  by (simp add: add_diffs_def Let_def)

lemma run_loop_Inr:
  "run_loop n s = Inr s' \<Longrightarrow>
   lastPixel s' = lastPixel s \<and> indexValues s' = indexValues s \<and> opBuffer s' = opBuffer s
   \<and> headerBuffer s' = headerBuffer s \<and> seenHeader s' = seenHeader s
   \<and> width s' = width s \<and> height s' = height s \<and> op s' = op s"
proof (induction n arbitrary: s)
  case 0
  then show ?case by simp
next
  case (Suc n)
  from Suc.prems obtain s1 where e: "emit_pixel s = Inr s1" and r: "run_loop n s1 = Inr s'"
    by (auto split: sum.splits)
  from emit_pixel_Inr [OF e] Suc.IH [OF r] show ?case by auto
qed

subsection \<open>Choosing the opcode\<close>

lemma and_192: "(x :: int) AND 192 = 64 * ((x div 64) mod 4)"
proof -
  have "x AND push_bit 6 (mask 2) = push_bit 6 (take_bit 2 (drop_bit 6 x))"
    by (rule bit_eqI) (auto simp: bit_simps)
  then show ?thesis
    by (simp add: push_bit_eq_mult take_bit_eq_mod drop_bit_eq_div mask_eq_exp_minus_1)
qed

lemma js_band_byte_192: "js_band (uint (b :: 8 word)) 192 = 64 * (uint b div 64)"
proof -
  have "uint b div 64 < 4" "0 \<le> uint b div 64"
    using uint8_lt [of b] by (simp_all add: div_int_pos_iff)
  then show ?thesis by (simp add: js_band_byte and_192)
qed

lemma select_op_busy: "op0 \<noteq> OP_NONE_ID \<Longrightarrow> select_op op0 byte = op0"
  by (simp add: select_op_def)

lemma select_op_tag:
  "select_op OP_NONE_ID (uint (b :: 8 word)) =
     (if uint b = 254 then OP_RGB_ID else if uint b = 255 then OP_RGBA_ID
      else if uint b div 64 = 0 then OP_INDEX_ID else if uint b div 64 = 1 then OP_DIFF_ID
      else if uint b div 64 = 2 then OP_LUMA_ID else OP_RUN_ID)"
proof -
  have "uint b div 64 < 4" "0 \<le> uint b div 64"
    using uint8_lt [of b] by (simp_all add: div_int_pos_iff)
  then have "uint b div 64 = 0 \<or> uint b div 64 = 1 \<or> uint b div 64 = 2 \<or> uint b div 64 = 3"
    by arith
  then show ?thesis
    by (auto simp: select_op_def Let_def js_band_byte_192 OP_RGB_BITS_def OP_RGBA_BITS_def
        OP_INDEX_BITS_def OP_DIFF_BITS_def OP_LUMA_BITS_def OP_RUN_BITS_def)
qed

lemma process_byte_opcode:
  "seenHeader s \<Longrightarrow> pixels s = Some px \<Longrightarrow> pixelOffset s < length px \<Longrightarrow>
   process_byte s b = opcode_byte s (uint b)"
  by (simp add: process_byte_def)

lemma process_byte_trailer:
  "seenHeader s \<Longrightarrow> pixels s = Some px \<Longrightarrow> length px \<le> pixelOffset s \<Longrightarrow>
   process_byte s b = trailer_byte s (length px) (uint b)"
  by (simp add: process_byte_def)

subsection \<open>RUN\<close>

lemma run_loop_ok:
  "pixels s = Some px \<Longrightarrow> length (lastPixel s) = 4 \<Longrightarrow> pixelOffset s + 4 * n \<le> length px \<Longrightarrow>
   run_loop n s
     = Inr (s\<lparr>pixels := Some (take (pixelOffset s) px @ concat (replicate n (lastPixel s))
                               @ drop (pixelOffset s + 4 * n) px),
               pixelOffset := pixelOffset s + 4 * n\<rparr>)"
proof (induction n arbitrary: s px)
  case 0
  then show ?case by simp
next
  case (Suc n)
  let ?off = "pixelOffset s" and ?lp = "lastPixel s"
  let ?px1 = "take ?off px @ ?lp @ drop (?off + 4) px"
  let ?s1 = "s\<lparr>pixels := Some ?px1, pixelOffset := ?off + 4\<rparr>"
  have e: "emit_pixel s = Inr ?s1"
    using Suc.prems by (simp add: emit_pixel_ok)
  have len: "length (take ?off px) = ?off"
    using Suc.prems by simp
  have t: "take (?off + 4) ?px1 = take ?off px @ ?lp"
    using Suc.prems len by simp
  have d: "drop (?off + 4 + 4 * n) ?px1 = drop (?off + 4 + 4 * n) px"
    using Suc.prems len by (simp add: ac_simps)
  have "run_loop n ?s1
        = Inr (?s1\<lparr>pixels := Some (take (pixelOffset ?s1) ?px1 @ concat (replicate n (lastPixel ?s1))
                               @ drop (pixelOffset ?s1 + 4 * n) ?px1),
               pixelOffset := pixelOffset ?s1 + 4 * n\<rparr>)"
    using Suc.prems by (intro Suc.IH) simp_all
  then show ?case
    using e t d by (simp add: add.assoc)
qed

lemma run_loop_fail:
  "pixels s = Some px \<Longrightarrow> length (lastPixel s) = 4 \<Longrightarrow> pixelOffset s \<le> length px \<Longrightarrow>
   length px < pixelOffset s + 4 * n \<Longrightarrow> run_loop n s = Inl RangeError"
proof (induction n arbitrary: s px)
  case 0
  then show ?case by simp
next
  case (Suc n)
  show ?case
  proof (cases "length px < pixelOffset s + 4")
    case True
    then show ?thesis using Suc.prems by (simp add: emit_pixel_fail)
  next
    case False
    let ?px1 = "take (pixelOffset s) px @ lastPixel s @ drop (pixelOffset s + 4) px"
    let ?s1 = "s\<lparr>pixels := Some ?px1, pixelOffset := pixelOffset s + 4\<rparr>"
    have e: "emit_pixel s = Inr ?s1"
      using Suc.prems False by (simp add: emit_pixel_ok)
    have "run_loop n ?s1 = Inl RangeError"
      using Suc.prems False by (intro Suc.IH [where px = ?px1]) simp_all
    then show ?thesis using e by simp
  qed
qed

lemma run_byte:
  assumes "v \<le> 61" "uint (b :: 8 word) = 192 + int v"
  shows "select_op OP_NONE_ID (uint b) = OP_RUN_ID" "nat (js_band (uint b) 63 + 1) = v + 1"
proof -
  have e: "uint b = 64 * 3 + int v" using assms by simp
  have l: "0 \<le> int v" "int v < 64" using assms by simp_all
  have d: "uint b div 64 = 3" using e l by (rule int_div_pos_eq)
  have m: "uint b mod 64 = int v" using e l by (rule int_mod_pos_eq)
  have n: "uint b \<noteq> 254" "uint b \<noteq> 255" using assms by simp_all
  show "select_op OP_NONE_ID (uint b) = OP_RUN_ID"
    unfolding select_op_tag by (simp only: d n) simp
  show "nat (js_band (uint b) 63 + 1) = v + 1"
    unfolding js_band_byte_63 m by simp
qed

subsection \<open>The invariant of the decoder\<close>

text \<open>Every part of the loop body keeps \<open>decoder_inv\<close>; so does the loop.\<close>

lemma decoder_inv_init: "decoder_inv init_state"
  by (simp add: decoder_inv_def init_state_def wf_state_def QOI_HEADER_SIZE_def
      QOI_HEADER_MAGIC_def INDEX_ARRAY_SIZE_def)

lemma decoder_inv_seen:
  "decoder_inv s \<Longrightarrow> seenHeader s \<Longrightarrow>
   \<exists>w h px. width s = Some w \<and> height s = Some h \<and> pixels s = Some px
     \<and> int (length px) = w * h * 4
     \<and> drop (pixelOffset s) px = replicate (length px - pixelOffset s) 0"
  by (auto simp: decoder_inv_def buffer_ok_def split: option.splits)

lemma decoder_inv_op [simp]: "decoder_inv (s\<lparr>op := x\<rparr>) = decoder_inv s"
  by (simp add: decoder_inv_def wf_state_def)

lemma decoder_inv_opOffset [simp]: "decoder_inv (s\<lparr>opOffset := n\<rparr>) = decoder_inv s"
  by (simp add: decoder_inv_def wf_state_def)

lemma decoder_inv_opBuffer:
  "decoder_inv s \<Longrightarrow> length ob = 4 \<Longrightarrow> decoder_inv (s\<lparr>opBuffer := ob\<rparr>)"
  by (simp add: decoder_inv_def wf_state_def)

lemma decoder_inv_lastPixel:
  "decoder_inv s \<Longrightarrow> length lp = 4 \<Longrightarrow> decoder_inv (s\<lparr>lastPixel := lp\<rparr>)"
  by (simp add: decoder_inv_def wf_state_def)

lemma decoder_inv_indexValues:
  "decoder_inv s \<Longrightarrow> length iv = 256 \<Longrightarrow> decoder_inv (s\<lparr>indexValues := iv\<rparr>)"
  by (simp add: decoder_inv_def wf_state_def)

lemma decoder_inv_wf: "decoder_inv s \<Longrightarrow> wf_state s"
  by (simp add: decoder_inv_def)

lemma decoder_inv_add_diffs: "decoder_inv s \<Longrightarrow> decoder_inv (add_diffs s r g b)"
  by (simp add: add_diffs_def Let_def decoder_inv_def wf_state_def)

lemma drop_written:
  assumes "off + 4 \<le> length px" "length lp = 4"
    and "drop off px = replicate (length px - off) (0 :: 8 word)"
  shows "drop (off + 4) (take off px @ lp @ drop (off + 4) px)
         = replicate (length px - (off + 4)) 0"
proof -
  have "drop (off + 4) (take off px @ lp @ drop (off + 4) px) = drop (off + 4) px"
    using assms(1,2) by simp
  also have "\<dots> = drop 4 (drop off px)"
    by (simp add: add.commute)
  also have "\<dots> = replicate (length px - (off + 4)) 0"
    unfolding assms(3) by simp
  finally show ?thesis .
qed

lemma decoder_inv_emit_pixel:
  assumes "emit_pixel s = Inr s'" "decoder_inv s" "seenHeader s"
  shows "decoder_inv s'"
proof -
  from emit_pixel_Inr [OF assms(1)] obtain px where
    px: "pixels s = Some px" and fit: "length (lastPixel s) + pixelOffset s \<le> length px"
    and s': "s' = s\<lparr>pixels := Some (take (pixelOffset s) px @ lastPixel s
                               @ drop (pixelOffset s + length (lastPixel s)) px),
                    pixelOffset := pixelOffset s + 4\<rparr>"
    by blast
  from decoder_inv_seen [OF assms(2,3)] px obtain w h where
    wh: "width s = Some w" "height s = Some h" "int (length px) = w * h * 4"
    and z: "drop (pixelOffset s) px = replicate (length px - pixelOffset s) 0"
    by auto
  have lp: "length (lastPixel s) = 4"
    using assms(2) by (simp add: decoder_inv_def wf_state_def)
  have "drop (pixelOffset s + 4) (take (pixelOffset s) px @ lastPixel s @ drop (pixelOffset s + 4) px)
        = replicate (length px - (pixelOffset s + 4)) 0"
    using fit lp z by (intro drop_written) simp_all
  then show ?thesis
    using assms(2,3) wh lp fit unfolding s' decoder_inv_def wf_state_def buffer_ok_def
    by simp
qed

lemma decoder_inv_store_and_reset:
  assumes "store_and_reset s = Inr s'" "decoder_inv s"
  shows "decoder_inv s'"
proof -
  from store_and_reset_Inr [OF assms(1)] obtain iv where
    "length iv = length (indexValues s)"
    and s': "s' = s\<lparr>indexValues := iv, op := OP_NONE_ID,
                    opBuffer := map (\<lambda>_. 0) (opBuffer s), opOffset := 0\<rparr>"
    by blast
  then show ?thesis
    using assms(2) unfolding s' decoder_inv_def wf_state_def by simp
qed

lemma decoder_inv_run_loop:
  "run_loop n s = Inr s' \<Longrightarrow> decoder_inv s \<Longrightarrow> seenHeader s \<Longrightarrow> decoder_inv s'"
proof (induction n arbitrary: s)
  case 0
  then show ?case by simp
next
  case (Suc n)
  from Suc.prems(1) obtain s1 where e: "emit_pixel s = Inr s1" and r: "run_loop n s1 = Inr s'"
    by (auto split: sum.splits)
  have "decoder_inv s1" using e Suc.prems(2,3) by (rule decoder_inv_emit_pixel)
  moreover have "seenHeader s1" using emit_pixel_Inr [OF e] Suc.prems(3) by auto
  ultimately show ?case using Suc.IH [OF r] by simp
qed

lemma decoder_inv_set_lastPixel:
  assumes "set_lastPixel s source = Inr s'" "decoder_inv s" "length source = 4"
  shows "decoder_inv s' \<and> seenHeader s' = seenHeader s"
proof -
  have "length (lastPixel s) = 4" using assms(2) by (simp add: decoder_inv_def wf_state_def)
  with set_lastPixel_Inr [OF assms(1)] assms(3) have "s' = s\<lparr>lastPixel := source\<rparr>"
    by simp
  then show ?thesis using assms(2,3) by (simp add: decoder_inv_lastPixel)
qed

lemma emit_pixel_pres:
  "emit_pixel s = Inr s' \<Longrightarrow> decoder_inv s \<and> seenHeader s \<Longrightarrow> decoder_inv s' \<and> seenHeader s'"
  using decoder_inv_emit_pixel [of s s'] emit_pixel_Inr [of s s'] by auto

lemma set_lastPixel_pres:
  "set_lastPixel s source = Inr s' \<Longrightarrow> length source = 4 \<Longrightarrow> decoder_inv s \<and> seenHeader s \<Longrightarrow>
   decoder_inv s' \<and> seenHeader s'"
  using decoder_inv_set_lastPixel [of s source s'] by auto

lemma run_loop_pres:
  "run_loop n s = Inr s' \<Longrightarrow> decoder_inv s \<and> seenHeader s \<Longrightarrow> decoder_inv s' \<and> seenHeader s'"
  using decoder_inv_run_loop [of n s s'] run_loop_Inr [of n s s'] by auto

lemma store_and_reset_pres:
  "store_and_reset s = Inr s' \<Longrightarrow> decoder_inv s \<and> seenHeader s \<Longrightarrow> decoder_inv s' \<and> seenHeader s'"
  using decoder_inv_store_and_reset [of s s'] store_and_reset_Inr [of s s'] by auto

lemma opBuffer_pres:
  "decoder_inv s \<and> seenHeader s \<Longrightarrow> length ob = 4 \<Longrightarrow>
   decoder_inv (s\<lparr>opBuffer := ob\<rparr>) \<and> seenHeader (s\<lparr>opBuffer := ob\<rparr>)"
  by (simp add: decoder_inv_opBuffer)

lemma inv_opBuffer_length: "decoder_inv s \<Longrightarrow> length (opBuffer s) = 4"
  by (simp add: decoder_inv_def wf_state_def)

lemma inv_indexValues_length: "decoder_inv s \<Longrightarrow> length (indexValues s) = 256"
  by (simp add: decoder_inv_def wf_state_def)

lemma do_RGB_pres:
  assumes "do_RGB s byte = Inr (s', c)" "decoder_inv s \<and> seenHeader s"
  shows "decoder_inv s' \<and> seenHeader s'"
proof -
  note len = inv_opBuffer_length [of s]
  show ?thesis
    using assms len
    by (auto simp: do_RGB_def Let_def decoder_inv_opBuffer
        split: if_splits sum.splits
        dest!: set_lastPixel_pres emit_pixel_pres)
qed

lemma do_RGBA_pres:
  assumes "do_RGBA s byte = Inr (s', c)" "decoder_inv s \<and> seenHeader s"
  shows "decoder_inv s' \<and> seenHeader s'"
proof -
  note len = inv_opBuffer_length [of s]
  show ?thesis
    using assms len
    by (auto simp: do_RGBA_def Let_def decoder_inv_opBuffer
        split: if_splits sum.splits
        dest!: set_lastPixel_pres emit_pixel_pres)
qed

lemma typed_slice_length: "e \<le> length a \<Longrightarrow> length (typed_slice a st e) = e - st"
  by (simp add: typed_slice_def)

lemma index_offset:
  "nat (js_shl (js_band (uint (b :: 8 word)) 63) 2) = 4 * nat (uint b mod 64)"
proof -
  have "0 \<le> uint b mod 64" "uint b mod 64 < 64" by simp_all
  then show ?thesis by (simp add: js_band_byte_63 js_shl_2_small nat_mult_distrib)
qed

lemma do_INDEX_pres:
  assumes "do_INDEX s (uint (b :: 8 word)) = Inr (s', c)" "decoder_inv s \<and> seenHeader s"
  shows "decoder_inv s' \<and> seenHeader s'"
proof -
  have "uint b mod 64 < 64" by simp
  then have "nat (uint b mod 64) < 64" by simp
  then have i: "4 * nat (uint b mod 64) + 4 \<le> 256" by simp
  have "length (typed_slice (indexValues s) (4 * nat (uint b mod 64)) (4 * nat (uint b mod 64) + 4)) = 4"
    using i inv_indexValues_length [of s] assms(2) by (simp add: typed_slice_length)
  then show ?thesis
    using assms
    by (auto simp: do_INDEX_def Let_def index_offset split: sum.splits
        dest!: set_lastPixel_pres emit_pixel_pres)
qed

lemma do_DIFF_pres:
  assumes "do_DIFF s byte = Inr (s', c)" "decoder_inv s \<and> seenHeader s"
  shows "decoder_inv s' \<and> seenHeader s'"
proof -
  have "decoder_inv (add_diffs s r g b) \<and> seenHeader (add_diffs s r g b)" for r g b
    using assms(2) by (simp add: decoder_inv_add_diffs add_diffs_fields)
  then show ?thesis
    using assms(1) by (auto simp: do_DIFF_def Let_def split: sum.splits dest!: emit_pixel_pres)
qed

lemma do_LUMA_pres:
  assumes "do_LUMA s byte = Inr (s', c)" "decoder_inv s \<and> seenHeader s"
  shows "decoder_inv s' \<and> seenHeader s'"
proof -
  have "decoder_inv (add_diffs s r g b) \<and> seenHeader (add_diffs s r g b)" for r g b
    using assms(2) by (simp add: decoder_inv_add_diffs add_diffs_fields)
  then show ?thesis
    using assms inv_opBuffer_length [of s]
    by (auto simp: do_LUMA_def Let_def decoder_inv_opBuffer split: sum.splits if_splits
        dest!: emit_pixel_pres)
qed

lemma do_RUN_pres:
  assumes "do_RUN s byte = Inr (s', c)" "decoder_inv s \<and> seenHeader s"
  shows "decoder_inv s' \<and> seenHeader s'"
  using assms by (auto simp: do_RUN_def split: sum.splits dest!: run_loop_pres)

lemma opcode_byte_pres:
  assumes "opcode_byte s (uint (b :: 8 word)) = Inr s'" "decoder_inv s \<and> seenHeader s"
  shows "decoder_inv s' \<and> seenHeader s'"
proof -
  let ?s1 = "s\<lparr>op := select_op (op s) (uint b)\<rparr>"
  have i1: "decoder_inv ?s1 \<and> seenHeader ?s1" using assms(2) by simp
  from assms(1) obtain s2 c where
    r: "(case op ?s1 of
           OP_RGB_ID \<Rightarrow> do_RGB ?s1 (uint b)
         | OP_RGBA_ID \<Rightarrow> do_RGBA ?s1 (uint b)
         | OP_INDEX_ID \<Rightarrow> do_INDEX ?s1 (uint b)
         | OP_DIFF_ID \<Rightarrow> do_DIFF ?s1 (uint b)
         | OP_LUMA_ID \<Rightarrow> do_LUMA ?s1 (uint b)
         | OP_RUN_ID \<Rightarrow> do_RUN ?s1 (uint b)
         | _ \<Rightarrow> Inr (?s1, False)) = Inr (s2, c)"
    and f: "(if c then Inr s2 else store_and_reset s2) = Inr s'"
    unfolding opcode_byte_def Let_def by (auto split: sum.splits prod.splits)
  have i2: "decoder_inv s2 \<and> seenHeader s2"
  proof (cases "op ?s1")
    case OP_RGB_ID
    with r i1 show ?thesis by (simp only: op_id.case) (rule do_RGB_pres)
  next
    case OP_RGBA_ID
    with r i1 show ?thesis by (simp only: op_id.case) (rule do_RGBA_pres)
  next
    case OP_INDEX_ID
    with r i1 show ?thesis by (simp only: op_id.case) (rule do_INDEX_pres)
  next
    case OP_DIFF_ID
    with r i1 show ?thesis by (simp only: op_id.case) (rule do_DIFF_pres)
  next
    case OP_LUMA_ID
    with r i1 show ?thesis by (simp only: op_id.case) (rule do_LUMA_pres)
  next
    case OP_RUN_ID
    with r i1 show ?thesis by (simp only: op_id.case) (rule do_RUN_pres)
  next
    case OP_NONE_ID
    with r i1 show ?thesis by (simp only: op_id.case) auto
  next
    case OP_HEAD_ID
    with r i1 show ?thesis by (simp only: op_id.case) auto
  qed
  show ?thesis
  proof (cases c)
    case True
    with f i2 show ?thesis by simp
  next
    case False
    with f have "store_and_reset s2 = Inr s'" by simp
    then show ?thesis using i2 by (rule store_and_reset_pres)
  qed
qed

lemma new_Uint8ClampedArray_Inr:
  "new_Uint8ClampedArray n = Inr px \<Longrightarrow> 0 \<le> n \<and> px = replicate (nat n) 0"
  by (auto simp: new_Uint8ClampedArray_def split: if_splits)

lemma header_byte_pres:
  assumes "header_byte s byte = Inr s'" "decoder_inv s" "\<not> seenHeader s"
  shows "decoder_inv s'"
  using assms
  by (auto simp: header_byte_def Let_def decoder_inv_def wf_state_def buffer_ok_def
      split: if_splits sum.splits dest!: new_Uint8ClampedArray_Inr)

lemma trailer_byte_pres:
  assumes "trailer_byte s (length px) byte = Inr s'" "decoder_inv s" "seenHeader s"
    "pixels s = Some px" "length px \<le> pixelOffset s"
  shows "decoder_inv s'"
  using assms
  by (auto simp: trailer_byte_def Let_def decoder_inv_def wf_state_def buffer_ok_def
      split: if_splits option.splits)

lemma process_byte_pres:
  assumes "process_byte s b = Inr s'" "decoder_inv s"
  shows "decoder_inv s'"
proof (cases "seenHeader s")
  case False
  with assms show ?thesis by (auto simp: process_byte_def intro: header_byte_pres)
next
  case True
  from decoder_inv_seen [OF assms(2) True] obtain px where px: "pixels s = Some px" by blast
  show ?thesis
  proof (cases "length px \<le> pixelOffset s")
    case True
    with assms px \<open>seenHeader s\<close> show ?thesis
      by (auto simp: process_byte_def intro: trailer_byte_pres)
  next
    case False
    with assms px \<open>seenHeader s\<close> have "opcode_byte s (uint b) = Inr s'"
      by (simp add: process_byte_def)
    then show ?thesis using opcode_byte_pres [of s b s'] assms(2) \<open>seenHeader s\<close> by simp
  qed
qed

lemma process_chunk_pres:
  "process_chunk s bytes = Inr s' \<Longrightarrow> decoder_inv s \<Longrightarrow> decoder_inv s'"
proof (induction bytes arbitrary: s)
  case Nil
  then show ?case by simp
next
  case (Cons b bytes)
  from Cons.prems(1) obtain s1 where p: "process_byte s b = Inr s1"
    and r: "process_chunk s1 bytes = Inr s'"
    by (auto split: sum.splits)
  from process_byte_pres [OF p Cons.prems(2)] Cons.IH [OF r] show ?case by simp
qed

subsection \<open>Trailer\<close>

lemma trailer_drop:
  "k < 7 \<Longrightarrow> drop k QOI_TRAILER = 0 # drop (Suc k) QOI_TRAILER"
  "drop 7 QOI_TRAILER = [1]" "drop 8 QOI_TRAILER = []"
proof -
  have T: "QOI_TRAILER = replicate 7 0 @ [1]"
    by (simp add: QOI_TRAILER_def numeral_eq_Suc)
  show "drop 7 QOI_TRAILER = [1]" "drop 8 QOI_TRAILER = []"
    by (simp_all add: T)
  assume k: "k < 7"
  then have "QOI_TRAILER ! k = 0" by (simp add: T nth_append)
  moreover have "k < length QOI_TRAILER" using k by (simp add: T)
  ultimately show "drop k QOI_TRAILER = 0 # drop (Suc k) QOI_TRAILER"
    using Cons_nth_drop_Suc [of k QOI_TRAILER] by simp
qed

lemma trailer_bytes:
  assumes "seenHeader s" "pixels s = Some px" "pixelOffset s = length px + k" "k \<le> 8"
  shows "process_chunk s rest =
           (if prefix rest (drop k QOI_TRAILER)
            then Inr (s\<lparr>pixelOffset := pixelOffset s + length rest\<rparr>)
            else Inl TrailerMismatch)"
  using assms
proof (induction rest arbitrary: s k)
  case Nil
  then show ?case by simp
next
  case (Cons b rest)
  have pb: "process_byte s b = trailer_byte s (length px) (uint b)"
    using Cons.prems by (intro process_byte_trailer) simp_all
  have off: "pixelOffset s - length px = k" using Cons.prems by simp
  consider "k < 7" | "k = 7" | "k = 8" using Cons.prems(4) by arith
  then show ?case
  proof cases
    case 1
    show ?thesis
    proof (cases "b = 0")
      case True
      let ?s1 = "s\<lparr>pixelOffset := pixelOffset s + 1\<rparr>"
      have st: "process_byte s b = Inr ?s1"
        unfolding pb trailer_byte_def Let_def off using 1 True by simp
      have "process_chunk ?s1 rest =
              (if prefix rest (drop (Suc k) QOI_TRAILER)
               then Inr (?s1\<lparr>pixelOffset := pixelOffset ?s1 + length rest\<rparr>)
               else Inl TrailerMismatch)"
        using Cons.prems 1 by (intro Cons.IH) simp_all
      then show ?thesis
        using st True 1 by (simp add: trailer_drop(1))
    next
      case False
      then have "process_byte s b = Inl TrailerMismatch"
        unfolding pb trailer_byte_def Let_def off using 1 by (simp add: uint_0_iff)
      then show ?thesis using False 1 by (simp add: trailer_drop(1))
    qed
  next
    case 2
    show ?thesis
    proof (cases "b = 1")
      case True
      let ?s1 = "s\<lparr>pixelOffset := pixelOffset s + 1\<rparr>"
      have st: "process_byte s b = Inr ?s1"
        unfolding pb trailer_byte_def Let_def off using 2 True by simp
      have "process_chunk ?s1 rest =
              (if prefix rest (drop 8 QOI_TRAILER)
               then Inr (?s1\<lparr>pixelOffset := pixelOffset ?s1 + length rest\<rparr>)
               else Inl TrailerMismatch)"
        using Cons.prems 2 by (intro Cons.IH) simp_all
      then show ?thesis
        using st True 2 by (simp add: trailer_drop)
    next
      case False
      then have "uint b \<noteq> 1" by (simp add: word_uint_eq_iff)
      then have "process_byte s b = Inl TrailerMismatch"
        unfolding pb trailer_byte_def Let_def off using 2 by simp
      then show ?thesis using False 2 by (simp add: trailer_drop)
    qed
  next
    case 3
    then have "process_byte s b = Inl TrailerMismatch"
      unfolding pb trailer_byte_def Let_def off by simp
    then show ?thesis using 3 by (simp add: trailer_drop)
  qed
qed

subsection \<open>Header phase\<close>

lemma header_phase:
  "\<not> seenHeader s \<Longrightarrow> headerBufferOffset s + length bytes < 14 \<Longrightarrow>
   \<exists>s'. process_chunk s bytes = Inr s' \<and> \<not> seenHeader s'
        \<and> headerBufferOffset s' = headerBufferOffset s + length bytes
        \<and> width s' = width s \<and> height s' = height s \<and> pixels s' = pixels s"
proof (induction bytes arbitrary: s)
  case Nil
  then show ?case by simp
next
  case (Cons b bytes)
  let ?s1 = "s\<lparr>headerBuffer := (headerBuffer s)[headerBufferOffset s := ToUint8 (uint b)],
                  headerBufferOffset := headerBufferOffset s + 1\<rparr>"
  have st: "process_byte s b = Inr ?s1"
    using Cons.prems by (simp add: process_byte_def header_byte_def)
  have "\<exists>s'. process_chunk ?s1 bytes = Inr s' \<and> \<not> seenHeader s'
        \<and> headerBufferOffset s' = headerBufferOffset ?s1 + length bytes
        \<and> width s' = width ?s1 \<and> height s' = height ?s1 \<and> pixels s' = pixels ?s1"
    using Cons.prems by (intro Cons.IH) simp_all
  then show ?case using st by auto
qed

lemma seenHeader_stays:
  "process_chunk s bytes = Inr s' \<Longrightarrow> decoder_inv s \<Longrightarrow> seenHeader s \<Longrightarrow> seenHeader s'"
proof (induction bytes arbitrary: s)
  case Nil
  then show ?case by simp
next
  case (Cons b bytes)
  from Cons.prems(1) obtain s1 where p: "process_byte s b = Inr s1"
    and r: "process_chunk s1 bytes = Inr s'"
    by (auto split: sum.splits)
  from decoder_inv_seen [OF Cons.prems(2,3)] obtain px where px: "pixels s = Some px" by blast
  have "seenHeader s1"
  proof (cases "length px \<le> pixelOffset s")
    case True
    with p px Cons.prems(3) show ?thesis
      by (auto simp: process_byte_def trailer_byte_def Let_def split: if_splits)
  next
    case False
    with p px Cons.prems(3) have "opcode_byte s (uint b) = Inr s1"
      by (simp add: process_byte_def)
    then show ?thesis using opcode_byte_pres [of s b s1] Cons.prems(2,3) by simp
  qed
  moreover have "decoder_inv s1" using p Cons.prems(2) by (rule process_byte_pres)
  ultimately show ?case using Cons.IH [OF r] by simp
qed

lemma header_completes:
  assumes "\<not> seenHeader s" "headerBufferOffset s = 13" "process_byte s b = Inr s'"
  shows "seenHeader s'"
  using assms
  by (auto simp: process_byte_def header_byte_def Let_def split: sum.splits)

lemma seenHeader_iff_14:
  assumes "process_chunk init_state bytes = Inr s"
  shows "seenHeader s \<longleftrightarrow> 14 \<le> length bytes"
proof (cases "length bytes < 14")
  case True
  have "\<not> seenHeader init_state" "headerBufferOffset init_state = 0"
    by (simp_all add: init_state_def)
  with header_phase [of init_state bytes] True assms show ?thesis by auto
next
  case False
  have i: "\<not> seenHeader init_state" "headerBufferOffset init_state = 0"
    by (simp_all add: init_state_def)
  from False obtain b rest where split: "drop 13 bytes = b # rest"
    by (cases "drop 13 bytes") auto
  have bytes: "bytes = take 13 bytes @ b # rest"
    using split by (metis append_take_drop_id)
  have l13: "length (take 13 bytes) = 13" using False by simp
  from header_phase [of init_state "take 13 bytes"] i l13 obtain s1 where
    s1: "process_chunk init_state (take 13 bytes) = Inr s1" "\<not> seenHeader s1"
        "headerBufferOffset s1 = 13"
    by auto
  from assms bytes s1(1) have "process_chunk s1 (b # rest) = Inr s"
    by (metis process_chunk_append sum.simps(6))
  then obtain s2 where p: "process_byte s1 b = Inr s2" and r: "process_chunk s2 rest = Inr s"
    by (auto split: sum.splits)
  have "seenHeader s2" using s1(2,3) p by (rule header_completes)
  moreover have "decoder_inv s1" using s1(1) decoder_inv_init by (rule process_chunk_pres)
  then have "decoder_inv s2" using p by (auto intro: process_byte_pres)
  ultimately have "seenHeader s" using seenHeader_stays [OF r] by simp
  then show ?thesis using False by simp
qed

subsection \<open>DIFF and LUMA\<close>

lemma length_4_conv: "length xs = 4 \<Longrightarrow> \<exists>a b c d. xs = [a, b, c, d]"
  by (auto simp: numeral_eq_Suc length_Suc_conv)

lemma wrap_channel:
  assumes "- 256 \<le> d" "d \<le> 256"
  shows "ToUint8Clamp (js_band (js_bor (uint (p :: 8 word) + d) 256) 255) = word_of_int (uint p + d)"
proof -
  have "0 \<le> uint p" "uint p < 256" using uint8_lt [of p] by simp_all
  with assms have "- 2147483648 \<le> uint p + d" "uint p + d < 2147483648" by linarith+
  then have "- (2 ^ 31) \<le> uint p + d" "uint p + d < 2 ^ 31" by simp_all
  then show ?thesis by (rule wrap_byte)
qed

lemma add_diffs_lastPixel:
  assumes "length (lastPixel s) = 4"
    and "- 256 \<le> r" "r \<le> 256" "- 256 \<le> g" "g \<le> 256" "- 256 \<le> b" "b \<le> 256"
  shows "lastPixel (add_diffs s r g b)
         = [word_of_int (rd (lastPixel s) 0 + r), word_of_int (rd (lastPixel s) 1 + g),
            word_of_int (rd (lastPixel s) 2 + b), lastPixel s ! 3]"
proof -
  from length_4_conv [OF assms(1)] obtain p0 p1 p2 p3 where lp: "lastPixel s = [p0, p1, p2, p3]"
    by blast
  show ?thesis
    using assms(2-) by (simp add: add_diffs_def Let_def lp rd_def wrap_channel)
qed

lemma delta_step:
  assumes "length (lastPixel s) = 4" "length (indexValues s) = 256"
    and "pixels s = Some px" "pixelOffset s + 4 \<le> length px"
    and "- 256 \<le> r" "r \<le> 256" "- 256 \<le> g" "g \<le> 256" "- 256 \<le> b" "b \<le> 256"
  shows "\<exists>s1 s'. emit_pixel (add_diffs s r g b) = Inr s1 \<and> store_and_reset s1 = Inr s'
           \<and> lastPixel s' = [word_of_int (rd (lastPixel s) 0 + r), word_of_int (rd (lastPixel s) 1 + g),
                             word_of_int (rd (lastPixel s) 2 + b), lastPixel s ! 3]"
proof -
  let ?s0 = "add_diffs s r g b"
  have lp: "lastPixel ?s0 = [word_of_int (rd (lastPixel s) 0 + r), word_of_int (rd (lastPixel s) 1 + g),
            word_of_int (rd (lastPixel s) 2 + b), lastPixel s ! 3]"
    using assms(1,5-) by (rule add_diffs_lastPixel)
  have f: "pixels ?s0 = Some px" "pixelOffset ?s0 = pixelOffset s" "length (lastPixel ?s0) = 4"
    "indexValues ?s0 = indexValues s"
    using assms(1,3) by (simp_all add: add_diffs_fields)
  let ?s1 = "?s0\<lparr>pixels := Some (take (pixelOffset ?s0) px @ lastPixel ?s0
                               @ drop (pixelOffset ?s0 + length (lastPixel ?s0)) px),
               pixelOffset := pixelOffset ?s0 + 4\<rparr>"
  have e: "emit_pixel ?s0 = Inr ?s1"
    using f assms(4) by (intro emit_pixel_ok) simp_all
  have "length (lastPixel ?s1) = 4" "length (indexValues ?s1) = 256"
    using f assms(2) by simp_all
  from store_and_reset_ok [OF this] obtain s' where
    st: "store_and_reset ?s1 = Inr s'" and "lastPixel s' = lastPixel ?s1"
    by simp
  then have "lastPixel s' = lastPixel ?s0" by simp
  with e st lp show ?thesis by metis
qed

lemma diff_byte:
  assumes "- 2 \<le> dr" "dr \<le> 1" "- 2 \<le> dg" "dg \<le> 1" "- 2 \<le> db" "db \<le> 1"
    and "uint (b :: 8 word) = 64 + 16 * (dr + 2) + 4 * (dg + 2) + (db + 2)"
  shows "select_op OP_NONE_ID (uint b) = OP_DIFF_ID"
    and "- 2 + js_sar (js_band (uint b) 48) 4 = dr"
    and "- 2 + js_sar (js_band (uint b) 12) 2 = dg"
    and "- 2 + js_band (uint b) 3 = db"
proof -
  have tag: "uint b div 64 = 1"
    using assms by (intro int_div_pos_eq [where r = "16 * (dr + 2) + 4 * (dg + 2) + (db + 2)"]) simp_all
  have n: "uint b \<noteq> 254" "uint b \<noteq> 255" using assms by simp_all
  show "select_op OP_NONE_ID (uint b) = OP_DIFF_ID"
    unfolding select_op_tag by (simp only: tag n) simp
  have d16: "uint b div 16 = 4 * 1 + (dr + 2)"
    using assms by (intro int_div_pos_eq [where r = "4 * (dg + 2) + (db + 2)"]) simp_all
  have "(4 * 1 + (dr + 2)) mod 4 = dr + 2"
    using assms by (intro int_mod_pos_eq [where q = 1]) simp_all
  then show "- 2 + js_sar (js_band (uint b) 48) 4 = dr"
    unfolding js_sar_band_48 d16 by simp
  have d4: "uint b div 4 = 4 * (4 + (dr + 2)) + (dg + 2)"
    using assms by (intro int_div_pos_eq [where r = "db + 2"]) simp_all
  have "(4 * (4 + (dr + 2)) + (dg + 2)) mod 4 = dg + 2"
    using assms by (intro int_mod_pos_eq [where q = "4 + (dr + 2)"]) simp_all
  then show "- 2 + js_sar (js_band (uint b) 12) 2 = dg"
    unfolding js_sar_band_12 d4 by simp
  have "uint b mod 4 = db + 2"
    using assms by (intro int_mod_pos_eq [where q = "16 + 4 * (dr + 2) + (dg + 2)"]) simp_all
  then show "- 2 + js_band (uint b) 3 = db"
    unfolding js_band_byte_3 by simp
qed

lemma luma_bytes:
  assumes "- 32 \<le> dg" "dg \<le> 31" "- 8 \<le> dr - dg" "dr - dg \<le> 7" "- 8 \<le> db - dg" "db - dg \<le> 7"
    and "uint (b1 :: 8 word) = 128 + (dg + 32)"
    and "uint (b2 :: 8 word) = 16 * (dr - dg + 8) + (db - dg + 8)"
  shows "select_op OP_NONE_ID (uint b1) = OP_LUMA_ID"
    and "js_band (uint b1) 63 = dg + 32"
    and "js_sar (js_band (uint b2) 240) 4 = dr - dg + 8"
    and "js_band (uint b2) 15 = db - dg + 8"
proof -
  have e: "uint b1 = 64 * 2 + (dg + 32)" using assms by simp
  have tag: "uint b1 div 64 = 2"
    using e assms by (intro int_div_pos_eq [where r = "dg + 32"]) simp_all
  have n: "uint b1 \<noteq> 254" "uint b1 \<noteq> 255" using assms by simp_all
  show "select_op OP_NONE_ID (uint b1) = OP_LUMA_ID"
    unfolding select_op_tag by (simp only: tag n) simp
  have "uint b1 mod 64 = dg + 32"
    using e assms by (intro int_mod_pos_eq [where q = 2]) simp_all
  then show "js_band (uint b1) 63 = dg + 32"
    unfolding js_band_byte_63 .
  have "uint b2 div 16 = dr - dg + 8"
    using assms by (intro int_div_pos_eq [where r = "db - dg + 8"]) simp_all
  then show "js_sar (js_band (uint b2) 240) 4 = dr - dg + 8"
    unfolding js_sar_band_240 .
  have "uint b2 mod 16 = db - dg + 8"
    using assms by (intro int_mod_pos_eq [where q = "dr - dg + 8"]) simp_all
  then show "js_band (uint b2) 15 = db - dg + 8"
    unfolding js_band_byte_15 .
qed

lemma rd_4:
  "rd [a, b, c, d] 0 = uint a" "rd [a, b, c, d] 1 = uint b" "rd [a, b, c, d] 2 = uint c"
  by (simp_all add: rd_def)

subsection \<open>Alpha\<close>

lemma emit_pixel_lastPixel: "emit_pixel s = Inr s' \<Longrightarrow> lastPixel s' = lastPixel s"
  by (auto dest!: emit_pixel_Inr)

lemma store_and_reset_lastPixel: "store_and_reset s = Inr s' \<Longrightarrow> lastPixel s' = lastPixel s"
  by (auto dest!: store_and_reset_Inr)

lemma do_RGB_alpha:
  assumes "do_RGB s byte = Inr (s', c)" "length (opBuffer s) = 4" "length (lastPixel s) = 4"
  shows "lastPixel s' ! 3 = lastPixel s ! 3"
  using assms
  by (auto simp: do_RGB_def Let_def rd_def ToUint8Clamp_uint nth_append
      split: if_splits sum.splits dest!: set_lastPixel_Inr emit_pixel_Inr)

lemma do_DIFF_alpha:
  "do_DIFF s byte = Inr (s', c) \<Longrightarrow> lastPixel s' ! 3 = lastPixel s ! 3"
  by (auto simp: do_DIFF_def Let_def add_diffs_alpha split: sum.splits dest!: emit_pixel_lastPixel)

lemma do_LUMA_alpha:
  "do_LUMA s byte = Inr (s', c) \<Longrightarrow> lastPixel s' ! 3 = lastPixel s ! 3"
  by (auto simp: do_LUMA_def Let_def add_diffs_alpha split: sum.splits if_splits
      dest!: emit_pixel_lastPixel)

lemma do_RUN_alpha:
  "do_RUN s byte = Inr (s', c) \<Longrightarrow> lastPixel s' ! 3 = lastPixel s ! 3"
  by (auto simp: do_RUN_def split: sum.splits dest!: run_loop_Inr)

lemma do_INDEX_lastPixel:
  assumes "do_INDEX s (uint (b :: 8 word)) = Inr (s', c)"
    "length (indexValues s) = 256" "length (lastPixel s) = 4"
  shows "lastPixel s' = typed_slice (indexValues s) (4 * nat (uint b mod 64)) (4 * nat (uint b mod 64) + 4)"
proof -
  have "uint b mod 64 < 64" by simp
  then have "nat (uint b mod 64) < 64" by simp
  then have i: "4 * nat (uint b mod 64) + 4 \<le> 256" by simp
  have "length (typed_slice (indexValues s) (4 * nat (uint b mod 64)) (4 * nat (uint b mod 64) + 4)) = 4"
    using i assms(2) by (simp add: typed_slice_length)
  then show ?thesis
    using assms
    by (auto simp: do_INDEX_def Let_def index_offset split: sum.splits
        dest!: set_lastPixel_Inr emit_pixel_Inr)
qed

lemma typed_slice_nth: "st + k < length a \<Longrightarrow> k < e - st \<Longrightarrow> typed_slice a st e ! k = a ! (st + k)"
  by (simp add: typed_slice_def)

lemma opcode_byte_result:
  assumes "opcode_byte s byte = Inr s'"
  obtains s2 c where
    "(case select_op (op s) byte of
           OP_RGB_ID \<Rightarrow> do_RGB (s\<lparr>op := select_op (op s) byte\<rparr>) byte
         | OP_RGBA_ID \<Rightarrow> do_RGBA (s\<lparr>op := select_op (op s) byte\<rparr>) byte
         | OP_INDEX_ID \<Rightarrow> do_INDEX (s\<lparr>op := select_op (op s) byte\<rparr>) byte
         | OP_DIFF_ID \<Rightarrow> do_DIFF (s\<lparr>op := select_op (op s) byte\<rparr>) byte
         | OP_LUMA_ID \<Rightarrow> do_LUMA (s\<lparr>op := select_op (op s) byte\<rparr>) byte
         | OP_RUN_ID \<Rightarrow> do_RUN (s\<lparr>op := select_op (op s) byte\<rparr>) byte
         | _ \<Rightarrow> Inr (s\<lparr>op := select_op (op s) byte\<rparr>, False)) = Inr (s2, c)"
    "lastPixel s' = lastPixel s2"
proof -
  from assms obtain s2 c where
    r: "(case select_op (op s) byte of
           OP_RGB_ID \<Rightarrow> do_RGB (s\<lparr>op := select_op (op s) byte\<rparr>) byte
         | OP_RGBA_ID \<Rightarrow> do_RGBA (s\<lparr>op := select_op (op s) byte\<rparr>) byte
         | OP_INDEX_ID \<Rightarrow> do_INDEX (s\<lparr>op := select_op (op s) byte\<rparr>) byte
         | OP_DIFF_ID \<Rightarrow> do_DIFF (s\<lparr>op := select_op (op s) byte\<rparr>) byte
         | OP_LUMA_ID \<Rightarrow> do_LUMA (s\<lparr>op := select_op (op s) byte\<rparr>) byte
         | OP_RUN_ID \<Rightarrow> do_RUN (s\<lparr>op := select_op (op s) byte\<rparr>) byte
         | _ \<Rightarrow> Inr (s\<lparr>op := select_op (op s) byte\<rparr>, False)) = Inr (s2, c)"
    and f: "(if c then Inr s2 else store_and_reset s2) = Inr s'"
    unfolding opcode_byte_def Let_def by (auto split: sum.splits prod.splits)
  from f have "lastPixel s' = lastPixel s2"
    by (auto split: if_splits dest: store_and_reset_lastPixel)
  with r that show thesis by blast
qed

subsection \<open>INDEX\<close>

lemma index_byte:
  assumes "uint (b :: 8 word) < 64"
  shows "select_op OP_NONE_ID (uint b) = OP_INDEX_ID" "nat (uint b mod 64) = unat b"
proof -
  have tag: "uint b div 64 = 0" using assms by simp
  have n: "uint b \<noteq> 254" "uint b \<noteq> 255" using assms by simp_all
  show "select_op OP_NONE_ID (uint b) = OP_INDEX_ID"
    unfolding select_op_tag by (simp only: tag n) simp
  have "uint b mod 64 = uint b" using assms by simp
  then show "nat (uint b mod 64) = unat b" by simp
qed

lemma slot_rewritten:
  "take st a @ typed_slice a st (st + 4) @ drop (st + 4) a = a"
proof -
  have "drop (st + 4) a = drop 4 (drop st a)"
    by (simp add: add.commute)
  then have "typed_slice a st (st + 4) @ drop (st + 4) a = drop st a"
    unfolding typed_slice_def by (simp only: add_diff_cancel_left' append_take_drop_id)
  then show ?thesis by simp
qed

subsection \<open>Emitted pixels\<close>

lemma do_RGB_emits:
  assumes "do_RGB s byte = Inr (s', c)" "pixels s = Some px"
    "length (opBuffer s) = 4" "length (lastPixel s) = 4"
  shows "(pixels s' = Some px \<and> pixelOffset s' = pixelOffset s)
       \<or> (pixels s' = Some (take (pixelOffset s) px @ lastPixel s' @ drop (pixelOffset s + 4) px)
          \<and> pixelOffset s' = pixelOffset s + 4)"
  using assms
  by (auto simp: do_RGB_def Let_def split: if_splits sum.splits
      dest!: set_lastPixel_Inr emit_pixel_Inr)

lemma do_RGBA_emits:
  assumes "do_RGBA s byte = Inr (s', c)" "pixels s = Some px"
    "length (opBuffer s) = 4" "length (lastPixel s) = 4"
  shows "(pixels s' = Some px \<and> pixelOffset s' = pixelOffset s)
       \<or> (pixels s' = Some (take (pixelOffset s) px @ lastPixel s' @ drop (pixelOffset s + 4) px)
          \<and> pixelOffset s' = pixelOffset s + 4)"
  using assms
  by (auto simp: do_RGBA_def Let_def split: if_splits sum.splits
      dest!: set_lastPixel_Inr emit_pixel_Inr)

lemma do_INDEX_emits:
  assumes "do_INDEX s (uint (b :: 8 word)) = Inr (s', c)" "pixels s = Some px"
    "length (indexValues s) = 256" "length (lastPixel s) = 4"
  shows "pixels s' = Some (take (pixelOffset s) px @ lastPixel s' @ drop (pixelOffset s + 4) px)
          \<and> pixelOffset s' = pixelOffset s + 4"
proof -
  have "uint b mod 64 < 64" by simp
  then have "nat (uint b mod 64) < 64" by simp
  then have i: "4 * nat (uint b mod 64) + 4 \<le> 256" by simp
  have "length (typed_slice (indexValues s) (4 * nat (uint b mod 64)) (4 * nat (uint b mod 64) + 4)) = 4"
    using i assms(3) by (simp add: typed_slice_length)
  then show ?thesis
    using assms
    by (auto simp: do_INDEX_def Let_def index_offset split: sum.splits
        dest!: set_lastPixel_Inr emit_pixel_Inr)
qed

lemma do_DIFF_emits:
  assumes "do_DIFF s byte = Inr (s', c)" "pixels s = Some px" "length (lastPixel s) = 4"
  shows "pixels s' = Some (take (pixelOffset s) px @ lastPixel s' @ drop (pixelOffset s + 4) px)
          \<and> pixelOffset s' = pixelOffset s + 4"
  using assms add_diffs_fields(6) [of s]
  by (auto simp: do_DIFF_def Let_def add_diffs_fields split: sum.splits dest!: emit_pixel_Inr)

lemma do_LUMA_emits:
  assumes "do_LUMA s byte = Inr (s', c)" "pixels s = Some px" "length (lastPixel s) = 4"
  shows "(pixels s' = Some px \<and> pixelOffset s' = pixelOffset s)
       \<or> (pixels s' = Some (take (pixelOffset s) px @ lastPixel s' @ drop (pixelOffset s + 4) px)
          \<and> pixelOffset s' = pixelOffset s + 4)"
  using assms add_diffs_fields(6) [of s]
  by (auto simp: do_LUMA_def Let_def add_diffs_fields split: sum.splits if_splits
      dest!: emit_pixel_Inr)

lemma do_RUN_emits:
  assumes "do_RUN s byte = Inr (s', c)" "pixels s = Some px" "length (lastPixel s) = 4"
    "pixelOffset s \<le> length px"
  shows "\<exists>n. pixels s' = Some (take (pixelOffset s) px @ concat (replicate n (lastPixel s'))
                               @ drop (pixelOffset s + 4 * n) px)
          \<and> pixelOffset s' = pixelOffset s + 4 * n"
proof -
  let ?n = "nat (js_band byte 63 + 1)"
  from assms(1) have r: "run_loop ?n s = Inr s'"
    by (auto simp: do_RUN_def split: sum.splits)
  have "pixelOffset s + 4 * ?n \<le> length px"
  proof (rule ccontr)
    assume "\<not> pixelOffset s + 4 * ?n \<le> length px"
    then have "length px < pixelOffset s + 4 * ?n" by (simp only: not_le)
    with assms(2-4) have "run_loop ?n s = Inl RangeError"
      by (rule run_loop_fail)
    with r show False by simp
  qed
  from run_loop_ok [OF assms(2,3) this] r
  have "s' = s\<lparr>pixels := Some (take (pixelOffset s) px @ concat (replicate ?n (lastPixel s))
                               @ drop (pixelOffset s + 4 * ?n) px),
               pixelOffset := pixelOffset s + 4 * ?n\<rparr>"
    by simp
  then have "pixels s' = Some (take (pixelOffset s) px @ concat (replicate ?n (lastPixel s'))
                               @ drop (pixelOffset s + 4 * ?n) px)
          \<and> pixelOffset s' = pixelOffset s + 4 * ?n"
    by simp
  then show ?thesis by blast
qed

lemma emits_0_or_1:
  assumes "(pixels s' = Some px \<and> pixelOffset s' = pixelOffset s)
       \<or> (pixels s' = Some (take (pixelOffset s) px @ lastPixel s' @ drop (pixelOffset s + 4) px)
          \<and> pixelOffset s' = pixelOffset s + 4)"
  shows "\<exists>n. pixels s' = Some (take (pixelOffset s) px @ concat (replicate n (lastPixel s'))
                               @ drop (pixelOffset s + 4 * n) px)
          \<and> pixelOffset s' = pixelOffset s + 4 * n"
  using assms
proof
  assume "pixels s' = Some px \<and> pixelOffset s' = pixelOffset s"
  then have "pixels s' = Some (take (pixelOffset s) px @ concat (replicate 0 (lastPixel s'))
                               @ drop (pixelOffset s + 4 * 0) px)
          \<and> pixelOffset s' = pixelOffset s + 4 * 0"
    by simp
  then show ?thesis by (rule exI)
next
  assume "pixels s' = Some (take (pixelOffset s) px @ lastPixel s' @ drop (pixelOffset s + 4) px)
          \<and> pixelOffset s' = pixelOffset s + 4"
  then have "pixels s' = Some (take (pixelOffset s) px @ concat (replicate 1 (lastPixel s'))
                               @ drop (pixelOffset s + 4 * 1) px)
          \<and> pixelOffset s' = pixelOffset s + 4 * 1"
    by simp
  then show ?thesis by (rule exI)
qed

lemma opcode_byte_emits:
  assumes "opcode_byte s (uint (b :: 8 word)) = Inr s'" "wf_state s" "pixels s = Some px"
    "pixelOffset s \<le> length px"
  shows "\<exists>n. pixels s' = Some (take (pixelOffset s) px @ concat (replicate n (lastPixel s'))
                               @ drop (pixelOffset s + 4 * n) px)
          \<and> pixelOffset s' = pixelOffset s + 4 * n"
proof -
  from assms(2) have wf: "length (lastPixel s) = 4" "length (indexValues s) = 256"
      "length (opBuffer s) = 4"
    by (simp_all add: wf_state_def)
  let ?s1 = "s\<lparr>op := select_op (op s) (uint b)\<rparr>"
  from assms(1) obtain s2 c where
    r: "(case op ?s1 of
           OP_RGB_ID \<Rightarrow> do_RGB ?s1 (uint b)
         | OP_RGBA_ID \<Rightarrow> do_RGBA ?s1 (uint b)
         | OP_INDEX_ID \<Rightarrow> do_INDEX ?s1 (uint b)
         | OP_DIFF_ID \<Rightarrow> do_DIFF ?s1 (uint b)
         | OP_LUMA_ID \<Rightarrow> do_LUMA ?s1 (uint b)
         | OP_RUN_ID \<Rightarrow> do_RUN ?s1 (uint b)
         | _ \<Rightarrow> Inr (?s1, False)) = Inr (s2, c)"
    and f: "(if c then Inr s2 else store_and_reset s2) = Inr s'"
    unfolding opcode_byte_def Let_def by (auto split: sum.splits prod.splits)
  from f have same: "lastPixel s' = lastPixel s2" "pixels s' = pixels s2"
      "pixelOffset s' = pixelOffset s2"
    by (auto split: if_splits dest!: store_and_reset_Inr)
  have p1: "pixels ?s1 = Some px" "length (opBuffer ?s1) = 4" "length (lastPixel ?s1) = 4"
    "length (indexValues ?s1) = 256" "pixelOffset ?s1 \<le> length px"
    using assms(3,4) wf by simp_all
  have "\<exists>n. pixels s2 = Some (take (pixelOffset ?s1) px @ concat (replicate n (lastPixel s2))
                               @ drop (pixelOffset ?s1 + 4 * n) px)
          \<and> pixelOffset s2 = pixelOffset ?s1 + 4 * n"
  proof (cases "op ?s1")
    case OP_RGB_ID
    with r have "do_RGB ?s1 (uint b) = Inr (s2, c)" by (simp only: op_id.case)
    from do_RGB_emits [OF this p1(1,2,3)] show ?thesis by (rule emits_0_or_1)
  next
    case OP_RGBA_ID
    with r have "do_RGBA ?s1 (uint b) = Inr (s2, c)" by (simp only: op_id.case)
    from do_RGBA_emits [OF this p1(1,2,3)] show ?thesis by (rule emits_0_or_1)
  next
    case OP_INDEX_ID
    with r have "do_INDEX ?s1 (uint b) = Inr (s2, c)" by (simp only: op_id.case)
    from do_INDEX_emits [OF this p1(1,4,3)] show ?thesis by (intro emits_0_or_1 disjI2)
  next
    case OP_DIFF_ID
    with r have "do_DIFF ?s1 (uint b) = Inr (s2, c)" by (simp only: op_id.case)
    from do_DIFF_emits [OF this p1(1,3)] show ?thesis by (intro emits_0_or_1 disjI2)
  next
    case OP_LUMA_ID
    with r have "do_LUMA ?s1 (uint b) = Inr (s2, c)" by (simp only: op_id.case)
    from do_LUMA_emits [OF this p1(1,3)] show ?thesis by (rule emits_0_or_1)
  next
    case OP_RUN_ID
    with r have "do_RUN ?s1 (uint b) = Inr (s2, c)" by (simp only: op_id.case)
    from do_RUN_emits [OF this p1(1,3,5)] show ?thesis .
  next
    case OP_NONE_ID
    with r have "s2 = ?s1" by (simp only: op_id.case) simp
    then have "(pixels s2 = Some px \<and> pixelOffset s2 = pixelOffset ?s1)
       \<or> (pixels s2 = Some (take (pixelOffset ?s1) px @ lastPixel s2 @ drop (pixelOffset ?s1 + 4) px)
          \<and> pixelOffset s2 = pixelOffset ?s1 + 4)"
      using assms(3) by simp
    then show ?thesis by (rule emits_0_or_1)
  next
    case OP_HEAD_ID
    with r have "s2 = ?s1" by (simp only: op_id.case) simp
    then have "(pixels s2 = Some px \<and> pixelOffset s2 = pixelOffset ?s1)
       \<or> (pixels s2 = Some (take (pixelOffset ?s1) px @ lastPixel s2 @ drop (pixelOffset ?s1 + 4) px)
          \<and> pixelOffset s2 = pixelOffset ?s1 + 4)"
      using assms(3) by simp
    then show ?thesis by (rule emits_0_or_1)
  qed
  then show ?thesis unfolding same by simp
qed

section \<open>The claims\<close>

text \<open>
  C1 (as amended). The decoder has no incomplete-stream error. When the source signals the
  end early and no byte delivered so far has raised an error, the session returns
  normally: with fewer than 14 bytes it returns width, height and pixels undefined; once
  the header has been read it returns the width, the height and the Pixel Buffer of
  \<open>width * height * 4\<close> bytes as it stands, the bytes from the write offset on
  still zero, whether or not all pixels and the 8 trailer bytes have arrived.
\<close>
theorem premature_end_returns_buffer:
  assumes "read_loop init_state stream = Inr s"
  shows "(length (concat stream) < 14 \<longrightarrow>
            getQoiPixelData stream = Inr \<lparr>r_width = None, r_height = None, r_pixels = None\<rparr>)
       \<and> (14 \<le> length (concat stream) \<longrightarrow>
            (\<exists>w h px. getQoiPixelData stream
                         = Inr \<lparr>r_width = Some w, r_height = Some h, r_pixels = Some px\<rparr>
               \<and> int (length px) = w * h * 4
               \<and> drop (pixelOffset s) px = replicate (length px - pixelOffset s) 0))"
proof -
  from assms have pc: "process_chunk init_state (concat stream) = Inr s"
    by (simp add: read_loop_concat)
  have inv: "decoder_inv s" using pc decoder_inv_init by (rule process_chunk_pres)
  have res: "getQoiPixelData stream
             = Inr \<lparr>r_width = width s, r_height = height s, r_pixels = pixels s\<rparr>"
    using assms by (simp add: getQoiPixelData_def)
  have seen: "seenHeader s \<longleftrightarrow> 14 \<le> length (concat stream)"
    using pc by (rule seenHeader_iff_14)
  show ?thesis
  proof (intro conjI impI)
    assume "length (concat stream) < 14"
    then have "\<not> seenHeader s" using seen by simp
    then show "getQoiPixelData stream = Inr \<lparr>r_width = None, r_height = None, r_pixels = None\<rparr>"
      using inv res by (simp add: decoder_inv_def)
  next
    assume "14 \<le> length (concat stream)"
    then have "seenHeader s" using seen by simp
    from decoder_inv_seen [OF inv this] res
    show "\<exists>w h px. getQoiPixelData stream
                         = Inr \<lparr>r_width = Some w, r_height = Some h, r_pixels = Some px\<rparr>
               \<and> int (length px) = w * h * 4
               \<and> drop (pixelOffset s) px = replicate (length px - pixelOffset s) 0"
      by auto
  qed
qed

theorem premature_end_returns_buffer_witness:
  "read_loop init_state [[113, 111, 105], [102, 0, 0, 0, 1]]
     = Inr (projr (read_loop init_state [[113, 111, 105], [102, 0, 0, 0, 1]]))
   \<and> length (concat [[113 :: 8 word, 111, 105], [102, 0, 0, 0, 1]]) < 14
   \<and> getQoiPixelData [[113, 111, 105], [102, 0, 0, 0, 1]]
       = Inr \<lparr>r_width = None, r_height = None, r_pixels = None\<rparr>
   \<and> read_loop init_state [[113, 111, 105, 102, 0, 0, 0, 1, 0, 0], [0, 2, 4, 0, 255, 10, 20, 30, 255]]
     = Inr (projr (read_loop init_state
              [[113, 111, 105, 102, 0, 0, 0, 1, 0, 0], [0, 2, 4, 0, 255, 10, 20, 30, 255]]))
   \<and> 14 \<le> length (concat [[113 :: 8 word, 111, 105, 102, 0, 0, 0, 1, 0, 0],
                              [0, 2, 4, 0, 255, 10, 20, 30, 255]])
   \<and> (\<exists>w h px. getQoiPixelData [[113, 111, 105, 102, 0, 0, 0, 1, 0, 0],
                                   [0, 2, 4, 0, 255, 10, 20, 30, 255]]
                  = Inr \<lparr>r_width = Some w, r_height = Some h, r_pixels = Some px\<rparr>
         \<and> int (length px) = w * h * 4
         \<and> drop (pixelOffset (projr (read_loop init_state
              [[113, 111, 105, 102, 0, 0, 0, 1, 0, 0], [0, 2, 4, 0, 255, 10, 20, 30, 255]]))) px
             = replicate (length px - pixelOffset (projr (read_loop init_state
              [[113, 111, 105, 102, 0, 0, 0, 1, 0, 0], [0, 2, 4, 0, 255, 10, 20, 30, 255]]))) 0)
   \<and> getQoiPixelData [[113, 111, 105, 102, 0, 0, 0, 1, 0, 0], [0, 2, 4, 0, 255, 10, 20, 30, 255]]
       = Inr \<lparr>r_width = Some 1, r_height = Some 2, r_pixels = Some [10, 20, 30, 255, 0, 0, 0, 0]\<rparr>"
proof -
  let ?short = "[[113, 111, 105], [102, 0, 0, 0, 1]] :: 8 word list list"
  let ?stream = "[[113, 111, 105, 102, 0, 0, 0, 1, 0, 0], [0, 2, 4, 0, 255, 10, 20, 30, 255]]
                 :: 8 word list list"
  have s1: "read_loop init_state ?short = Inr (projr (read_loop init_state ?short))"
    by code_simp
  have s2: "length (concat ?short) < 14" by simp
  from premature_end_returns_buffer [OF s1] s2
  have s3: "getQoiPixelData ?short = Inr \<lparr>r_width = None, r_height = None, r_pixels = None\<rparr>"
    by blast
  have h1: "read_loop init_state ?stream = Inr (projr (read_loop init_state ?stream))"
    by code_simp
  have h2: "14 \<le> length (concat ?stream)" by simp
  have h3: "getQoiPixelData ?stream
       = Inr \<lparr>r_width = Some 1, r_height = Some 2, r_pixels = Some [10, 20, 30, 255, 0, 0, 0, 0]\<rparr>"
    by code_simp
  from premature_end_returns_buffer [OF h1] h2 h1 h3 s1 s2 s3 show ?thesis by blast
qed

text \<open>Counterexample to C1 as first stated: a stream cut inside the header, one cut before the
  second pixel and one cut inside the trailer all return normally, the second one with
  partial pixel data.\<close>
theorem premature_end_no_error:
  "getQoiPixelData [[113, 111, 105, 102, 0, 0, 0, 1, 0, 0, 0, 2, 4]]
     = Inr \<lparr>r_width = None, r_height = None, r_pixels = None\<rparr>
   \<and> getQoiPixelData [[113, 111, 105, 102, 0, 0, 0, 1, 0, 0, 0, 2, 4, 0, 255, 10, 20, 30, 255]]
     = Inr \<lparr>r_width = Some 1, r_height = Some 2, r_pixels = Some [10, 20, 30, 255, 0, 0, 0, 0]\<rparr>
   \<and> getQoiPixelData [[113, 111, 105, 102, 0, 0, 0, 1, 0, 0, 0, 1, 4, 0, 255, 10, 20, 30, 255,
                        0, 0, 0]]
     = Inr \<lparr>r_width = Some 1, r_height = Some 1, r_pixels = Some [10, 20, 30, 255]\<rparr>"
  by code_simp

text \<open>
  C2. A header whose colorspace byte is neither 0 nor 1 should be refused. The guard at
  line 55 tests the array \<^verbatim>\<open>SUPPORTED_COLORSPACE_MODES\<close> itself, which is always
  truthy, where the guard for the channels four lines above calls \<^verbatim>\<open>includes\<close>: the
  header with colorspace byte 2 is parsed and returned.
\<close>
theorem colorspace_byte_2_accepted:
  "parseQoiHeaderBytes [113, 111, 105, 102, 0, 0, 0, 1, 0, 0, 0, 1, 4, 2]
     = Inr \<lparr>h_width = 1, h_height = 1, h_channels = 4, h_colorspace = 2\<rparr>"
  by code_simp

text \<open>
  C3 (as amended). The alpha of the previous-pixel register is changed only by an RGBA
  opcode, which sets it, and by an INDEX opcode, which replaces it with the alpha stored in
  the selected slot of the Color Cache: no byte of a DIFF, LUMA, RUN or RGB opcode (nor a
  header or trailer byte) changes it. The pixels a byte writes to the Pixel Buffer are
  copies of the register as that byte leaves it, at the write offset, and nothing else
  in the buffer changes.
\<close>
theorem alpha_changed_only_by_rgba_and_index:
  assumes "wf_state s" and "process_byte s b = Inr s'"
  shows "(select_op (op s) (uint b) \<noteq> OP_RGBA_ID \<and> select_op (op s) (uint b) \<noteq> OP_INDEX_ID
            \<longrightarrow> lastPixel s' ! 3 = lastPixel s ! 3)
       \<and> (seenHeader s \<and> (\<exists>px. pixels s = Some px \<and> pixelOffset s < length px)
            \<and> select_op (op s) (uint b) = OP_INDEX_ID
            \<longrightarrow> lastPixel s' ! 3 = indexValues s ! (4 * nat (uint b mod 64) + 3))
       \<and> (seenHeader s \<and> pixels s = Some px \<and> pixelOffset s < length px
            \<longrightarrow> (\<exists>n. pixels s' = Some (take (pixelOffset s) px
                                       @ concat (replicate n (lastPixel s'))
                                       @ drop (pixelOffset s + 4 * n) px)
                   \<and> pixelOffset s' = pixelOffset s + 4 * n))"
proof (intro conjI impI)
  from assms(1) have wf: "length (lastPixel s) = 4" "length (indexValues s) = 256"
      "length (opBuffer s) = 4"
    by (simp_all add: wf_state_def)
  {
    assume sel: "select_op (op s) (uint b) \<noteq> OP_RGBA_ID \<and> select_op (op s) (uint b) \<noteq> OP_INDEX_ID"
    show "lastPixel s' ! 3 = lastPixel s ! 3"
    proof (cases "seenHeader s")
      case False
      with assms(2) show ?thesis
        by (auto simp: process_byte_def header_byte_def Let_def split: if_splits sum.splits)
    next
      case True
      with assms(2) obtain px where px: "pixels s = Some px"
        by (cases "pixels s") (auto simp: process_byte_def Let_def)
      show ?thesis
      proof (cases "length px \<le> pixelOffset s")
        case True
        with assms(2) px \<open>seenHeader s\<close> show ?thesis
          by (auto simp: process_byte_def trailer_byte_def Let_def split: if_splits)
      next
        case False
        with assms(2) px \<open>seenHeader s\<close> have "opcode_byte s (uint b) = Inr s'"
          by (simp add: process_byte_def)
        then obtain s2 c where
          r: "(case select_op (op s) (uint b) of
           OP_RGB_ID \<Rightarrow> do_RGB (s\<lparr>op := select_op (op s) (uint b)\<rparr>) (uint b)
         | OP_RGBA_ID \<Rightarrow> do_RGBA (s\<lparr>op := select_op (op s) (uint b)\<rparr>) (uint b)
         | OP_INDEX_ID \<Rightarrow> do_INDEX (s\<lparr>op := select_op (op s) (uint b)\<rparr>) (uint b)
         | OP_DIFF_ID \<Rightarrow> do_DIFF (s\<lparr>op := select_op (op s) (uint b)\<rparr>) (uint b)
         | OP_LUMA_ID \<Rightarrow> do_LUMA (s\<lparr>op := select_op (op s) (uint b)\<rparr>) (uint b)
         | OP_RUN_ID \<Rightarrow> do_RUN (s\<lparr>op := select_op (op s) (uint b)\<rparr>) (uint b)
         | _ \<Rightarrow> Inr (s\<lparr>op := select_op (op s) (uint b)\<rparr>, False)) = Inr (s2, c)"
          and l: "lastPixel s' = lastPixel s2"
          by (rule opcode_byte_result)
        let ?s1 = "s\<lparr>op := select_op (op s) (uint b)\<rparr>"
        have "lastPixel s2 ! 3 = lastPixel ?s1 ! 3"
        proof (cases "select_op (op s) (uint b)")
          case OP_RGB_ID
          with r have "do_RGB ?s1 (uint b) = Inr (s2, c)" by simp
          then show ?thesis using wf by (intro do_RGB_alpha) simp_all
        next
          case OP_DIFF_ID
          with r have "do_DIFF ?s1 (uint b) = Inr (s2, c)" by simp
          then show ?thesis by (rule do_DIFF_alpha)
        next
          case OP_LUMA_ID
          with r have "do_LUMA ?s1 (uint b) = Inr (s2, c)" by simp
          then show ?thesis by (rule do_LUMA_alpha)
        next
          case OP_RUN_ID
          with r have "do_RUN ?s1 (uint b) = Inr (s2, c)" by simp
          then show ?thesis by (rule do_RUN_alpha)
        next
          case OP_NONE_ID
          with r show ?thesis by auto
        next
          case OP_HEAD_ID
          with r show ?thesis by auto
        next
          case OP_RGBA_ID
          with sel show ?thesis by simp
        next
          case OP_INDEX_ID
          with sel show ?thesis by simp
        qed
        then show ?thesis using l by simp
      qed
    qed
  }
  {
    assume a: "seenHeader s \<and> (\<exists>px. pixels s = Some px \<and> pixelOffset s < length px)
            \<and> select_op (op s) (uint b) = OP_INDEX_ID"
    then obtain px where px: "pixels s = Some px" "pixelOffset s < length px" by blast
    with a assms(2) have "opcode_byte s (uint b) = Inr s'"
      by (simp add: process_byte_def)
    then obtain s2 c where
          r: "(case select_op (op s) (uint b) of
           OP_RGB_ID \<Rightarrow> do_RGB (s\<lparr>op := select_op (op s) (uint b)\<rparr>) (uint b)
         | OP_RGBA_ID \<Rightarrow> do_RGBA (s\<lparr>op := select_op (op s) (uint b)\<rparr>) (uint b)
         | OP_INDEX_ID \<Rightarrow> do_INDEX (s\<lparr>op := select_op (op s) (uint b)\<rparr>) (uint b)
         | OP_DIFF_ID \<Rightarrow> do_DIFF (s\<lparr>op := select_op (op s) (uint b)\<rparr>) (uint b)
         | OP_LUMA_ID \<Rightarrow> do_LUMA (s\<lparr>op := select_op (op s) (uint b)\<rparr>) (uint b)
         | OP_RUN_ID \<Rightarrow> do_RUN (s\<lparr>op := select_op (op s) (uint b)\<rparr>) (uint b)
         | _ \<Rightarrow> Inr (s\<lparr>op := select_op (op s) (uint b)\<rparr>, False)) = Inr (s2, c)"
          and l: "lastPixel s' = lastPixel s2"
      by (rule opcode_byte_result)
    let ?s1 = "s\<lparr>op := select_op (op s) (uint b)\<rparr>"
    let ?i = "4 * nat (uint b mod 64)"
    from r a have "do_INDEX ?s1 (uint b) = Inr (s2, c)" by simp
    then have "lastPixel s2 = typed_slice (indexValues ?s1) ?i (?i + 4)"
      using wf by (intro do_INDEX_lastPixel) simp_all
    then have lp: "lastPixel s' = typed_slice (indexValues s) ?i (?i + 4)"
      using l by simp
    have "uint b mod 64 < 64" by simp
    then have "nat (uint b mod 64) < 64" by simp
    then have "?i + 3 < length (indexValues s)" using wf(2) by simp
    then show "lastPixel s' ! 3 = indexValues s ! (?i + 3)"
      unfolding lp by (intro typed_slice_nth) simp_all
  }
  {
    assume a: "seenHeader s \<and> pixels s = Some px \<and> pixelOffset s < length px"
    with assms(2) have "opcode_byte s (uint b) = Inr s'"
      by (simp add: process_byte_def)
    moreover have "pixelOffset s \<le> length px" using a by simp
    ultimately show "\<exists>n. pixels s' = Some (take (pixelOffset s) px
                                       @ concat (replicate n (lastPixel s'))
                                       @ drop (pixelOffset s + 4 * n) px)
                   \<and> pixelOffset s' = pixelOffset s + 4 * n"
      using assms(1) a by (intro opcode_byte_emits) simp_all
  }
qed

theorem alpha_changed_only_by_rgba_and_index_witness:
  "wf_state (projr (process_chunk init_state [113, 111, 105, 102, 0, 0, 0, 1, 0, 0, 0, 1, 4, 0]))
   \<and> process_byte (projr (process_chunk init_state
         [113, 111, 105, 102, 0, 0, 0, 1, 0, 0, 0, 1, 4, 0])) 106
       = Inr (projr (process_byte (projr (process_chunk init_state
         [113, 111, 105, 102, 0, 0, 0, 1, 0, 0, 0, 1, 4, 0])) 106))
   \<and> select_op (op (projr (process_chunk init_state
         [113, 111, 105, 102, 0, 0, 0, 1, 0, 0, 0, 1, 4, 0]))) (uint (106 :: 8 word)) = OP_DIFF_ID
   \<and> lastPixel (projr (process_byte (projr (process_chunk init_state
         [113, 111, 105, 102, 0, 0, 0, 1, 0, 0, 0, 1, 4, 0])) 106)) ! 3
       = lastPixel (projr (process_chunk init_state
         [113, 111, 105, 102, 0, 0, 0, 1, 0, 0, 0, 1, 4, 0])) ! 3
   \<and> process_byte (projr (process_chunk init_state
         [113, 111, 105, 102, 0, 0, 0, 1, 0, 0, 0, 1, 4, 0])) 5
       = Inr (projr (process_byte (projr (process_chunk init_state
         [113, 111, 105, 102, 0, 0, 0, 1, 0, 0, 0, 1, 4, 0])) 5))
   \<and> select_op (op (projr (process_chunk init_state
         [113, 111, 105, 102, 0, 0, 0, 1, 0, 0, 0, 1, 4, 0]))) (uint (5 :: 8 word)) = OP_INDEX_ID
   \<and> lastPixel (projr (process_byte (projr (process_chunk init_state
         [113, 111, 105, 102, 0, 0, 0, 1, 0, 0, 0, 1, 4, 0])) 5)) ! 3
       = indexValues (projr (process_chunk init_state
         [113, 111, 105, 102, 0, 0, 0, 1, 0, 0, 0, 1, 4, 0])) ! (4 * nat (uint (5 :: 8 word) mod 64) + 3)
   \<and> seenHeader (projr (process_chunk init_state
         [113, 111, 105, 102, 0, 0, 0, 1, 0, 0, 0, 1, 4, 0]))
   \<and> pixels (projr (process_chunk init_state
         [113, 111, 105, 102, 0, 0, 0, 1, 0, 0, 0, 1, 4, 0])) = Some [0, 0, 0, 0]
   \<and> (\<exists>n. pixels (projr (process_byte (projr (process_chunk init_state
                [113, 111, 105, 102, 0, 0, 0, 1, 0, 0, 0, 1, 4, 0])) 106))
             = Some (take (pixelOffset (projr (process_chunk init_state
                        [113, 111, 105, 102, 0, 0, 0, 1, 0, 0, 0, 1, 4, 0]))) [0, 0, 0, 0]
                     @ concat (replicate n (lastPixel (projr (process_byte (projr
                        (process_chunk init_state
                          [113, 111, 105, 102, 0, 0, 0, 1, 0, 0, 0, 1, 4, 0])) 106))))
                     @ drop (pixelOffset (projr (process_chunk init_state
                        [113, 111, 105, 102, 0, 0, 0, 1, 0, 0, 0, 1, 4, 0])) + 4 * n) [0, 0, 0, 0])
         \<and> pixelOffset (projr (process_byte (projr (process_chunk init_state
                [113, 111, 105, 102, 0, 0, 0, 1, 0, 0, 0, 1, 4, 0])) 106))
             = pixelOffset (projr (process_chunk init_state
                [113, 111, 105, 102, 0, 0, 0, 1, 0, 0, 0, 1, 4, 0])) + 4 * n)
   \<and> pixels (projr (process_byte (projr (process_chunk init_state
         [113, 111, 105, 102, 0, 0, 0, 1, 0, 0, 0, 1, 4, 0])) 106)) = Some [0, 0, 0, 255]"
proof -
  let ?S = "projr (process_chunk init_state [113, 111, 105, 102, 0, 0, 0, 1, 0, 0, 0, 1, 4, 0])"
  have h1: "wf_state ?S" by code_simp
  have d: "process_byte ?S 106 = Inr (projr (process_byte ?S 106))" by code_simp
  have i: "process_byte ?S 5 = Inr (projr (process_byte ?S 5))" by code_simp
  have sd: "select_op (op ?S) (uint (106 :: 8 word)) = OP_DIFF_ID" by code_simp
  have si: "select_op (op ?S) (uint (5 :: 8 word)) = OP_INDEX_ID" by code_simp
  have sh: "seenHeader ?S" by code_simp
  have px: "pixels ?S = Some [0, 0, 0, 0]" "pixelOffset ?S < length [0 :: 8 word, 0, 0, 0]"
    by code_simp+
  from alpha_changed_only_by_rgba_and_index [OF h1 d] sd
  have a: "lastPixel (projr (process_byte ?S 106)) ! 3 = lastPixel ?S ! 3" by simp
  from alpha_changed_only_by_rgba_and_index [OF h1 i] si sh px
  have b: "lastPixel (projr (process_byte ?S 5)) ! 3
           = indexValues ?S ! (4 * nat (uint (5 :: 8 word) mod 64) + 3)" by blast
  from alpha_changed_only_by_rgba_and_index [OF h1 d, of "[0, 0, 0, 0]"] sh px
  have c: "\<exists>n. pixels (projr (process_byte ?S 106))
             = Some (take (pixelOffset ?S) [0, 0, 0, 0]
                     @ concat (replicate n (lastPixel (projr (process_byte ?S 106))))
                     @ drop (pixelOffset ?S + 4 * n) [0, 0, 0, 0])
         \<and> pixelOffset (projr (process_byte ?S 106)) = pixelOffset ?S + 4 * n" by blast
  have e: "pixels (projr (process_byte ?S 106)) = Some [0, 0, 0, 255]" by code_simp
  show ?thesis using h1 d sd a i si b sh px(1) c e by blast
qed

text \<open>Counterexample to C3 as first stated, for INDEX: right after the header the register holds alpha
  255; the opcode INDEX 0 loads the unset slot 0 and the decoded pixel has alpha 0.\<close>
theorem index_replaces_alpha:
  "lastPixel (projr (process_chunk init_state [113, 111, 105, 102, 0, 0, 0, 1, 0, 0, 0, 1, 4, 0]))
     = [0, 0, 0, 255]
   \<and> map_sum id lastPixel
        (process_byte (projr (process_chunk init_state
            [113, 111, 105, 102, 0, 0, 0, 1, 0, 0, 0, 1, 4, 0])) 0) = Inr [0, 0, 0, 0]
   \<and> getQoiPixelData [[113, 111, 105, 102, 0, 0, 0, 1, 0, 0, 0, 1, 4, 0, 0]]
     = Inr \<lparr>r_width = Some 1, r_height = Some 1, r_pixels = Some [0, 0, 0, 0]\<rparr>"
  by code_simp

text \<open>
  C4 (as amended). When the pixel held in the slot selected by an INDEX opcode hashes to
  that slot's own index, the cache write after the opcode re-writes the pixel into its
  own slot: the 64 slots of the Color Cache are exactly what they were before.
\<close>
theorem index_rewrites_own_slot:
  assumes "ready s px" and "pixelOffset s + 4 \<le> length px" and "uint b < 64"
    and "pixel_hash (typed_slice (indexValues s) (4 * unat b) (4 * unat b + 4)) = unat b"
  shows "\<exists>s'. process_byte s b = Inr s'
           \<and> lastPixel s' = typed_slice (indexValues s) (4 * unat b) (4 * unat b + 4)
           \<and> indexValues s' = indexValues s"
proof -
  from assms(1) have wf: "length (lastPixel s) = 4" "length (indexValues s) = 256"
    and sh: "seenHeader s" and px: "pixels s = Some px" and op: "op s = OP_NONE_ID"
    by (simp_all add: ready_def wf_state_def)
  have room: "pixelOffset s < length px" using assms(2) by arith
  note dec = index_byte [OF assms(3)]
  let ?i = "4 * unat b"
  let ?sl = "typed_slice (indexValues s) ?i (?i + 4)"
  have "unat b < 64" using assms(3) dec(2) by linarith
  then have sl: "length ?sl = 4" using wf(2) by (simp add: typed_slice_length)
  let ?s1 = "s\<lparr>op := OP_INDEX_ID\<rparr>"
  let ?s2 = "?s1\<lparr>lastPixel := ?sl\<rparr>"
  let ?s3 = "?s2\<lparr>pixels := Some (take (pixelOffset ?s2) px @ lastPixel ?s2
                               @ drop (pixelOffset ?s2 + length (lastPixel ?s2)) px),
               pixelOffset := pixelOffset ?s2 + 4\<rparr>"
  have a: "set_lastPixel ?s1 ?sl = Inr ?s2"
    using sl wf by (intro set_lastPixel_ok) simp
  have e: "emit_pixel ?s2 = Inr ?s3"
    using px sl assms(2) by (intro emit_pixel_ok) simp_all
  have d: "do_INDEX ?s1 (uint b) = Inr (?s3, False)"
    unfolding do_INDEX_def Let_def index_offset dec(2) using a e by simp
  have "length (lastPixel ?s3) = 4" "length (indexValues ?s3) = 256"
    using sl wf by simp_all
  note st = store_and_reset_ok [OF this]
  have h: "pixel_hash (lastPixel ?s3) = unat b" using assms(4) by simp
  have "process_byte s b = opcode_byte s (uint b)"
    using sh px room by (rule process_byte_opcode)
  also have "\<dots> = store_and_reset ?s3"
    unfolding opcode_byte_def Let_def op dec(1) using d by simp
  finally have "process_byte s b
      = Inr (?s3\<lparr>indexValues := take ?i (indexValues s) @ ?sl @ drop (?i + 4) (indexValues s),
               op := OP_NONE_ID, opBuffer := map (\<lambda>_. 0) (opBuffer ?s3), opOffset := 0\<rparr>)"
    unfolding st h by simp
  then show ?thesis
    unfolding slot_rewritten by simp
qed

theorem index_rewrites_own_slot_witness:
  "ready (projr (process_chunk init_state
            [113, 111, 105, 102, 0, 0, 0, 1, 0, 0, 0, 2, 4, 0, 255, 10, 20, 30, 255]))
         [10, 20, 30, 255, 0, 0, 0, 0]
   \<and> uint (9 :: 8 word) < 64
   \<and> pixel_hash (typed_slice (indexValues (projr (process_chunk init_state
            [113, 111, 105, 102, 0, 0, 0, 1, 0, 0, 0, 2, 4, 0, 255, 10, 20, 30, 255])))
          (4 * unat (9 :: 8 word)) (4 * unat (9 :: 8 word) + 4)) = unat (9 :: 8 word)
   \<and> typed_slice (indexValues (projr (process_chunk init_state
            [113, 111, 105, 102, 0, 0, 0, 1, 0, 0, 0, 2, 4, 0, 255, 10, 20, 30, 255])))
          (4 * unat (9 :: 8 word)) (4 * unat (9 :: 8 word) + 4) = [10, 20, 30, 255]
   \<and> (\<exists>s'. process_byte (projr (process_chunk init_state
            [113, 111, 105, 102, 0, 0, 0, 1, 0, 0, 0, 2, 4, 0, 255, 10, 20, 30, 255])) 9 = Inr s'
         \<and> lastPixel s' = typed_slice (indexValues (projr (process_chunk init_state
            [113, 111, 105, 102, 0, 0, 0, 1, 0, 0, 0, 2, 4, 0, 255, 10, 20, 30, 255])))
          (4 * unat (9 :: 8 word)) (4 * unat (9 :: 8 word) + 4)
         \<and> indexValues s' = indexValues (projr (process_chunk init_state
            [113, 111, 105, 102, 0, 0, 0, 1, 0, 0, 0, 2, 4, 0, 255, 10, 20, 30, 255])))"
proof -
  let ?S = "projr (process_chunk init_state
            [113, 111, 105, 102, 0, 0, 0, 1, 0, 0, 0, 2, 4, 0, 255, 10, 20, 30, 255])"
  let ?PX = "[10, 20, 30, 255, 0, 0, 0, 0] :: 8 word list"
  have h1: "ready ?S ?PX" by code_simp
  have h2: "pixelOffset ?S + 4 \<le> length ?PX" by code_simp
  have h3: "uint (9 :: 8 word) < 64" by simp
  have h4: "pixel_hash (typed_slice (indexValues ?S) (4 * unat (9 :: 8 word))
              (4 * unat (9 :: 8 word) + 4)) = unat (9 :: 8 word)"
    by code_simp
  have h5: "typed_slice (indexValues ?S) (4 * unat (9 :: 8 word))
              (4 * unat (9 :: 8 word) + 4) = [10, 20, 30, 255]"
    by code_simp
  from index_rewrites_own_slot [OF h1 h2 h3 h4] h1 h3 h4 h5 show ?thesis by blast
qed

text \<open>Counterexample to C4 as first stated, for a slot that was never written: it holds (0,0,0,0),
  which hashes to slot 0. After RGBA (0,0,0,64) has been stored in slot 0, the opcode
  INDEX 1 overwrites slot 0 with (0,0,0,0).\<close>
theorem index_overwrites_slot_0:
  "typed_slice (indexValues (projr (process_chunk init_state
       [113, 111, 105, 102, 0, 0, 0, 1, 0, 0, 0, 2, 4, 0, 255, 0, 0, 0, 64]))) 0 4 = [0, 0, 0, 64]
   \<and> map_sum id indexValues
        (process_byte (projr (process_chunk init_state
           [113, 111, 105, 102, 0, 0, 0, 1, 0, 0, 0, 2, 4, 0, 255, 0, 0, 0, 64])) 1)
       = Inr (replicate 256 0)"
  by code_simp

text \<open>
  C5. Parsing the serialization of a header should return the header, for every unsigned
  32-bit width and height (line 7 of the source calls them \<^verbatim>\<open>u32\<close>). The parser
  assembles them with \<^verbatim>\<open><<\<close> and \<^verbatim>\<open>|\<close>, which work on signed 32-bit integers: the
  width \<open>2^31\<close> comes back as \<open>- 2^31\<close>.
\<close>
theorem width_2_31_parsed_negative:
  "serializeQoiHeader \<lparr>h_width = 2147483648, h_height = 1, h_channels = 4, h_colorspace = 0\<rparr>
     = [113, 111, 105, 102, 128, 0, 0, 0, 0, 0, 0, 1, 4, 0]
   \<and> parseQoiHeaderBytes [113, 111, 105, 102, 128, 0, 0, 0, 0, 0, 0, 1, 4, 0]
     = Inr \<lparr>h_width = - 2147483648, h_height = 1, h_channels = 4, h_colorspace = 0\<rparr>"
  by code_simp

text \<open>
  C6. Feeding the chunks of a stream one after the other gives the same outcome (the same
  width, height and Pixel Buffer, or the same error) as feeding all the bytes as a single
  chunk, wherever the chunk boundaries fall: inside the header, inside an opcode or at
  an empty chunk. It holds for every stream, valid or not.
\<close>
theorem chunk_partition_irrelevant:
  "getQoiPixelData stream = getQoiPixelData [concat stream]"
  by (simp add: getQoiPixelData_def read_loop_concat split: sum.splits)

theorem chunk_partition_irrelevant_witness:
  "getQoiPixelData [[113, 111, 105, 102, 0, 0], [0, 1, 0, 0, 0, 3, 4, 0, 254, 100], [],
                    [100, 100, 193, 0, 0, 0], [0, 0, 0, 0, 1]]
   = getQoiPixelData [concat [[113, 111, 105, 102, 0, 0], [0, 1, 0, 0, 0, 3, 4, 0, 254, 100],
                              [], [100, 100, 193, 0, 0, 0], [0, 0, 0, 0, 1]]]
   \<and> getQoiPixelData [[113, 111, 105, 102, 0, 0], [0, 1, 0, 0, 0, 3, 4, 0, 254, 100], [],
                      [100, 100, 193, 0, 0, 0], [0, 0, 0, 0, 1]]
   = Inr \<lparr>r_width = Some 1, r_height = Some 3,
          r_pixels = Some [100, 100, 100, 255, 100, 100, 100, 255, 100, 100, 100, 255]\<rparr>"
proof -
  have "getQoiPixelData [[113, 111, 105, 102, 0, 0], [0, 1, 0, 0, 0, 3, 4, 0, 254, 100], [],
                         [100, 100, 193, 0, 0, 0], [0, 0, 0, 0, 1]]
        = Inr \<lparr>r_width = Some 1, r_height = Some 3,
               r_pixels = Some [100, 100, 100, 255, 100, 100, 100, 255, 100, 100, 100, 255]\<rparr>"
    by code_simp
  then show ?thesis
    using chunk_partition_irrelevant
      [of "[[113, 111, 105, 102, 0, 0], [0, 1, 0, 0, 0, 3, 4, 0, 254, 100], [],
            [100, 100, 193, 0, 0, 0], [0, 0, 0, 0, 1]]"]
    by blast
qed

text \<open>
  C7. A DIFF byte encodes the deltas \<open>dr, dg, db\<close> in \<open>-2..1\<close> with bias 2 in its bit
  pairs; a LUMA opcode encodes \<open>lg\<close> in \<open>-32..31\<close> with bias 32 in its first byte and
  \<open>lr - lg\<close>, \<open>lb - lg\<close> in \<open>-8..7\<close> with bias 8 in the nibbles of its second byte.
  Decoding either adds each delta to the matching channel of the previous pixel modulo
  256, wrapping in both directions, and leaves the alpha unchanged.
\<close>
theorem diff_luma_wrap_mod_256:
  assumes "ready s px" and "pixelOffset s + 4 \<le> length px"
    and D: "- 2 \<le> dr" "dr \<le> 1" "- 2 \<le> dg" "dg \<le> 1" "- 2 \<le> db" "db \<le> 1"
           "uint b = 64 + 16 * (dr + 2) + 4 * (dg + 2) + (db + 2)"
    and L: "- 32 \<le> lg" "lg \<le> 31" "- 8 \<le> lr - lg" "lr - lg \<le> 7" "- 8 \<le> lb - lg" "lb - lg \<le> 7"
           "uint b1 = 128 + (lg + 32)" "uint b2 = 16 * (lr - lg + 8) + (lb - lg + 8)"
  shows "(\<exists>s'. process_byte s b = Inr s'
            \<and> rd (lastPixel s') 0 = (rd (lastPixel s) 0 + dr) mod 256
            \<and> rd (lastPixel s') 1 = (rd (lastPixel s) 1 + dg) mod 256
            \<and> rd (lastPixel s') 2 = (rd (lastPixel s) 2 + db) mod 256
            \<and> lastPixel s' ! 3 = lastPixel s ! 3)
       \<and> (\<exists>s'. process_chunk s [b1, b2] = Inr s'
            \<and> rd (lastPixel s') 0 = (rd (lastPixel s) 0 + lr) mod 256
            \<and> rd (lastPixel s') 1 = (rd (lastPixel s) 1 + lg) mod 256
            \<and> rd (lastPixel s') 2 = (rd (lastPixel s) 2 + lb) mod 256
            \<and> lastPixel s' ! 3 = lastPixel s ! 3)"
proof
  from assms(1) have wf: "length (lastPixel s) = 4" "length (indexValues s) = 256"
      "length (opBuffer s) = 4"
    and sh: "seenHeader s" and px: "pixels s = Some px" and op: "op s = OP_NONE_ID"
    and oo: "opOffset s = 0"
    by (simp_all add: ready_def wf_state_def)
  have room: "pixelOffset s < length px" using assms(2) by arith
  show "\<exists>s'. process_byte s b = Inr s'
            \<and> rd (lastPixel s') 0 = (rd (lastPixel s) 0 + dr) mod 256
            \<and> rd (lastPixel s') 1 = (rd (lastPixel s) 1 + dg) mod 256
            \<and> rd (lastPixel s') 2 = (rd (lastPixel s) 2 + db) mod 256
            \<and> lastPixel s' ! 3 = lastPixel s ! 3"
  proof -
    let ?s1 = "s\<lparr>op := OP_DIFF_ID\<rparr>"
    note dec = diff_byte [OF D]
    have "\<exists>s2 s'. emit_pixel (add_diffs ?s1 dr dg db) = Inr s2 \<and> store_and_reset s2 = Inr s'
           \<and> lastPixel s' = [word_of_int (rd (lastPixel ?s1) 0 + dr),
                             word_of_int (rd (lastPixel ?s1) 1 + dg),
                             word_of_int (rd (lastPixel ?s1) 2 + db), lastPixel ?s1 ! 3]"
      using wf px assms(2) D(1-6) by (intro delta_step) simp_all
    then obtain s2 s' where e: "emit_pixel (add_diffs ?s1 dr dg db) = Inr s2"
      and st: "store_and_reset s2 = Inr s'"
      and lp: "lastPixel s' = [word_of_int (rd (lastPixel s) 0 + dr),
                             word_of_int (rd (lastPixel s) 1 + dg),
                             word_of_int (rd (lastPixel s) 2 + db), lastPixel s ! 3]"
      by auto
    have "process_byte s b = opcode_byte s (uint b)"
      using sh px room by (rule process_byte_opcode)
    also have "\<dots> = Inr s'"
      unfolding opcode_byte_def Let_def op dec(1) do_DIFF_def dec(2-4)
      using e st by simp
    finally have pb: "process_byte s b = Inr s'" .
    have "rd (lastPixel s') 0 = (rd (lastPixel s) 0 + dr) mod 256"
      "rd (lastPixel s') 1 = (rd (lastPixel s) 1 + dg) mod 256"
      "rd (lastPixel s') 2 = (rd (lastPixel s) 2 + db) mod 256"
      "lastPixel s' ! 3 = lastPixel s ! 3"
      unfolding lp rd_4 uint_word_of_int_8 by simp_all
    with pb show ?thesis by blast
  qed
  show "\<exists>s'. process_chunk s [b1, b2] = Inr s'
            \<and> rd (lastPixel s') 0 = (rd (lastPixel s) 0 + lr) mod 256
            \<and> rd (lastPixel s') 1 = (rd (lastPixel s) 1 + lg) mod 256
            \<and> rd (lastPixel s') 2 = (rd (lastPixel s) 2 + lb) mod 256
            \<and> lastPixel s' ! 3 = lastPixel s ! 3"
  proof -
    note dec = luma_bytes [OF L]
    let ?sA = "s\<lparr>op := OP_LUMA_ID, opBuffer := (opBuffer s)[0 := ToUint8Clamp (lg + 32)],
                   opOffset := 1\<rparr>"
    have "process_byte s b1 = opcode_byte s (uint b1)"
      using sh px room by (rule process_byte_opcode)
    also have "\<dots> = Inr ?sA"
      unfolding opcode_byte_def Let_def op dec(1) do_LUMA_def dec(2)
      using oo by simp
    finally have first: "process_byte s b1 = Inr ?sA" .
    have c: "ToUint8Clamp (lg + 32) = word_of_int (lg + 32)"
      using L(1,2) by (simp add: ToUint8Clamp_def)
    have u: "uint (ToUint8Clamp (lg + 32)) = lg + 32"
      unfolding c uint_word_of_int_8 using L(1,2) by simp
    have "rd (opBuffer ?sA) 0 = uint (ToUint8Clamp (lg + 32))"
      using wf(3) by (simp add: rd_def)
    then have g: "- 32 + rd (opBuffer ?sA) 0 = lg"
      unfolding u by simp
    have "\<exists>s2 s'. emit_pixel (add_diffs ?sA lr lg lb) = Inr s2 \<and> store_and_reset s2 = Inr s'
           \<and> lastPixel s' = [word_of_int (rd (lastPixel ?sA) 0 + lr),
                             word_of_int (rd (lastPixel ?sA) 1 + lg),
                             word_of_int (rd (lastPixel ?sA) 2 + lb), lastPixel ?sA ! 3]"
      using wf px assms(2) L(1-6) by (intro delta_step) simp_all
    then obtain s2 s' where e: "emit_pixel (add_diffs ?sA lr lg lb) = Inr s2"
      and st: "store_and_reset s2 = Inr s'"
      and lp: "lastPixel s' = [word_of_int (rd (lastPixel s) 0 + lr),
                             word_of_int (rd (lastPixel s) 1 + lg),
                             word_of_int (rd (lastPixel s) 2 + lb), lastPixel s ! 3]"
      by auto
    have loop: "?sA\<lparr>op := OP_LUMA_ID\<rparr> = ?sA" by simp
    have "process_byte ?sA b2 = opcode_byte ?sA (uint b2)"
      using sh px room by (intro process_byte_opcode [where px = px]) simp_all
    also have "\<dots> = Inr s'"
    proof -
      have sel: "select_op (op ?sA) (uint b2) = OP_LUMA_ID"
        by (simp add: select_op_busy)
      have do: "do_LUMA ?sA (uint b2) = Inr (s2, False)"
        unfolding do_LUMA_def Let_def g dec(3,4) using e by simp
      show ?thesis
        unfolding opcode_byte_def Let_def sel loop using do st by simp
    qed
    finally have second: "process_byte ?sA b2 = Inr s'" .
    have pc: "process_chunk s [b1, b2] = Inr s'"
      using first second by simp
    have "rd (lastPixel s') 0 = (rd (lastPixel s) 0 + lr) mod 256"
      "rd (lastPixel s') 1 = (rd (lastPixel s) 1 + lg) mod 256"
      "rd (lastPixel s') 2 = (rd (lastPixel s) 2 + lb) mod 256"
      "lastPixel s' ! 3 = lastPixel s ! 3"
      unfolding lp rd_4 uint_word_of_int_8 by simp_all
    with pc show ?thesis by blast
  qed
qed

theorem diff_luma_wrap_mod_256_witness:
  "ready (projr (process_chunk init_state
            [113, 111, 105, 102, 0, 0, 0, 1, 0, 0, 0, 3, 4, 0, 254, 0, 255, 7]))
         [0, 255, 7, 255, 0, 0, 0, 0, 0, 0, 0, 0]
   \<and> lastPixel (projr (process_chunk init_state
            [113, 111, 105, 102, 0, 0, 0, 1, 0, 0, 0, 3, 4, 0, 254, 0, 255, 7])) = [0, 255, 7, 255]
   \<and> uint (78 :: 8 word) = 64 + 16 * (- 2 + 2) + 4 * (1 + 2) + (0 + 2)
   \<and> uint (161 :: 8 word) = 128 + (1 + 32)
   \<and> uint (90 :: 8 word) = 16 * (- 2 - 1 + 8) + (3 - 1 + 8)
   \<and> (\<exists>s'. process_byte (projr (process_chunk init_state
            [113, 111, 105, 102, 0, 0, 0, 1, 0, 0, 0, 3, 4, 0, 254, 0, 255, 7])) 78 = Inr s'
         \<and> rd (lastPixel s') 0 = 254 \<and> rd (lastPixel s') 1 = 0 \<and> rd (lastPixel s') 2 = 7
         \<and> lastPixel s' ! 3 = 255)
   \<and> (\<exists>s'. process_chunk (projr (process_chunk init_state
            [113, 111, 105, 102, 0, 0, 0, 1, 0, 0, 0, 3, 4, 0, 254, 0, 255, 7])) [161, 90] = Inr s'
         \<and> rd (lastPixel s') 0 = 254 \<and> rd (lastPixel s') 1 = 0 \<and> rd (lastPixel s') 2 = 10
         \<and> lastPixel s' ! 3 = 255)"
proof -
  let ?S = "projr (process_chunk init_state
            [113, 111, 105, 102, 0, 0, 0, 1, 0, 0, 0, 3, 4, 0, 254, 0, 255, 7])"
  let ?PX = "[0, 255, 7, 255, 0, 0, 0, 0, 0, 0, 0, 0] :: 8 word list"
  have h1: "ready ?S ?PX" by code_simp
  have h2: "pixelOffset ?S + 4 \<le> length ?PX" by code_simp
  have lp: "lastPixel ?S = [0, 255, 7, 255]" by code_simp
  have d: "uint (78 :: 8 word) = 64 + 16 * (- 2 + 2) + 4 * (1 + 2) + (0 + 2)" by simp
  have l1: "uint (161 :: 8 word) = 128 + (1 + 32)" by simp
  have l2: "uint (90 :: 8 word) = 16 * (- 2 - 1 + 8) + (3 - 1 + 8)" by simp
  have t: "(\<exists>s'. process_byte ?S 78 = Inr s'
            \<and> rd (lastPixel s') 0 = (rd (lastPixel ?S) 0 + (- 2)) mod 256
            \<and> rd (lastPixel s') 1 = (rd (lastPixel ?S) 1 + 1) mod 256
            \<and> rd (lastPixel s') 2 = (rd (lastPixel ?S) 2 + 0) mod 256
            \<and> lastPixel s' ! 3 = lastPixel ?S ! 3)
       \<and> (\<exists>s'. process_chunk ?S [161, 90] = Inr s'
            \<and> rd (lastPixel s') 0 = (rd (lastPixel ?S) 0 + (- 2)) mod 256
            \<and> rd (lastPixel s') 1 = (rd (lastPixel ?S) 1 + 1) mod 256
            \<and> rd (lastPixel s') 2 = (rd (lastPixel ?S) 2 + 3) mod 256
            \<and> lastPixel s' ! 3 = lastPixel ?S ! 3)"
    by (rule diff_luma_wrap_mod_256 [OF h1 h2 _ _ _ _ _ _ d _ _ _ _ _ _ l1 l2]) simp_all
  have v: "(rd (lastPixel ?S) 0 + (- 2)) mod 256 = 254" "(rd (lastPixel ?S) 1 + 1) mod 256 = 0"
    "(rd (lastPixel ?S) 2 + 0) mod 256 = 7" "(rd (lastPixel ?S) 2 + 3) mod 256 = 10"
    "lastPixel ?S ! 3 = 255"
    unfolding lp by (simp_all add: rd_def)
  from t have "(\<exists>s'. process_byte ?S 78 = Inr s'
         \<and> rd (lastPixel s') 0 = 254 \<and> rd (lastPixel s') 1 = 0 \<and> rd (lastPixel s') 2 = 7
         \<and> lastPixel s' ! 3 = 255)
   \<and> (\<exists>s'. process_chunk ?S [161, 90] = Inr s'
         \<and> rd (lastPixel s') 0 = 254 \<and> rd (lastPixel s') 1 = 0 \<and> rd (lastPixel s') 2 = 10
         \<and> lastPixel s' ! 3 = 255)"
    unfolding v .
  then show ?thesis using h1 lp d l1 l2 by blast
qed

text \<open>
  C8. A RUN opcode whose low 6 bits hold \<open>v \<le> 61\<close>, decoded when at least \<open>v + 1\<close> pixels
  of capacity remain, writes exactly \<open>v + 1\<close> consecutive copies of the previous pixel at
  the write offset, advances the offset by as many pixels and leaves the previous-pixel
  register unchanged.
\<close>
theorem run_appends_copies:
  assumes "ready s px" and "v \<le> 61" and "uint b = 192 + int v"
    and "pixelOffset s + 4 * (v + 1) \<le> length px"
  shows "\<exists>s'. process_byte s b = Inr s'
           \<and> pixels s' = Some (take (pixelOffset s) px @ concat (replicate (v + 1) (lastPixel s))
                               @ drop (pixelOffset s + 4 * (v + 1)) px)
           \<and> pixelOffset s' = pixelOffset s + 4 * (v + 1)
           \<and> lastPixel s' = lastPixel s"
proof -
  from assms(1) have wf: "length (lastPixel s) = 4" "length (indexValues s) = 256"
    and sh: "seenHeader s" and px: "pixels s = Some px" and op: "op s = OP_NONE_ID"
    by (simp_all add: ready_def wf_state_def)
  let ?s1 = "s\<lparr>op := OP_RUN_ID\<rparr>"
  let ?px' = "take (pixelOffset s) px @ concat (replicate (v + 1) (lastPixel s))
              @ drop (pixelOffset s + 4 * (v + 1)) px"
  let ?s2 = "?s1\<lparr>pixels := Some ?px', pixelOffset := pixelOffset s + 4 * (v + 1)\<rparr>"
  have r: "run_loop (v + 1) ?s1 = Inr ?s2"
    using run_loop_ok [of ?s1 px "v + 1"] px wf assms(4) by simp
  have "process_byte s b = opcode_byte s (uint b)"
    using sh px assms(4) by (intro process_byte_opcode) (simp, simp, arith)
  also have "\<dots> = store_and_reset ?s2"
    using r by (simp add: opcode_byte_def op run_byte [OF assms(2,3)] do_RUN_def)
  finally show ?thesis
    using wf by (simp add: store_and_reset_ok)
qed

theorem run_appends_copies_witness:
  "ready (projr (process_chunk init_state
            [113, 111, 105, 102, 0, 0, 0, 1, 0, 0, 0, 3, 4, 0, 254, 100, 100, 100]))
         [100, 100, 100, 255, 0, 0, 0, 0, 0, 0, 0, 0]
   \<and> (1 :: nat) \<le> 61 \<and> uint (193 :: 8 word) = 192 + int 1
   \<and> (\<exists>s'. process_byte (projr (process_chunk init_state
            [113, 111, 105, 102, 0, 0, 0, 1, 0, 0, 0, 3, 4, 0, 254, 100, 100, 100])) 193 = Inr s'
         \<and> pixels s' = Some [100, 100, 100, 255, 100, 100, 100, 255, 100, 100, 100, 255]
         \<and> pixelOffset s' = 12 \<and> lastPixel s' = [100, 100, 100, 255])"
proof -
  let ?S = "projr (process_chunk init_state
            [113, 111, 105, 102, 0, 0, 0, 1, 0, 0, 0, 3, 4, 0, 254, 100, 100, 100])"
  let ?PX = "[100, 100, 100, 255, 0, 0, 0, 0, 0, 0, 0, 0] :: 8 word list"
  have h1: "ready ?S ?PX" by code_simp
  have h2: "(1 :: nat) \<le> 61" by simp
  have h3: "uint (193 :: 8 word) = 192 + int 1" by simp
  have h4: "pixelOffset ?S + 4 * (1 + 1) \<le> length ?PX" by code_simp
  have v: "pixelOffset ?S = 4" "lastPixel ?S = [100, 100, 100, 255]" by code_simp+
  from run_appends_copies [OF h1 h2 h3 h4] obtain s' where
    "process_byte ?S 193 = Inr s'"
    "pixels s' = Some (take (pixelOffset ?S) ?PX @ concat (replicate (1 + 1) (lastPixel ?S))
                               @ drop (pixelOffset ?S + 4 * (1 + 1)) ?PX)"
    "pixelOffset s' = pixelOffset ?S + 4 * (1 + 1)" "lastPixel s' = lastPixel ?S"
    by blast
  then have "process_byte ?S 193 = Inr s'
         \<and> pixels s' = Some [100, 100, 100, 255, 100, 100, 100, 255, 100, 100, 100, 255]
         \<and> pixelOffset s' = 12 \<and> lastPixel s' = [100, 100, 100, 255]"
    unfolding v by simp
  then show ?thesis using h1 h2 h3 by blast
qed

text \<open>
  C9. Once the Pixel Buffer is full, the bytes that follow are accepted exactly as long
  as they form a prefix of the 8-byte trailer (0 at positions 0 to 6, 1 at position 7): a
  mismatching byte or a ninth byte fails with the trailer error, and an accepted byte only
  advances the offset; it is never decoded as an opcode.
\<close>
theorem trailer_validated_by_position:
  assumes "seenHeader s" and "pixels s = Some px" and "pixelOffset s = length px"
  shows "process_chunk s rest =
           (if prefix rest QOI_TRAILER
            then Inr (s\<lparr>pixelOffset := length px + length rest\<rparr>)
            else Inl TrailerMismatch)"
  using trailer_bytes [of s px 0 rest] assms by simp

theorem trailer_validated_by_position_witness:
  "seenHeader (projr (process_chunk init_state
            [113, 111, 105, 102, 0, 0, 0, 1, 0, 0, 0, 1, 4, 0, 255, 10, 20, 30, 255]))
   \<and> pixels (projr (process_chunk init_state
            [113, 111, 105, 102, 0, 0, 0, 1, 0, 0, 0, 1, 4, 0, 255, 10, 20, 30, 255]))
       = Some [10, 20, 30, 255]
   \<and> pixelOffset (projr (process_chunk init_state
            [113, 111, 105, 102, 0, 0, 0, 1, 0, 0, 0, 1, 4, 0, 255, 10, 20, 30, 255]))
       = length [10 :: 8 word, 20, 30, 255]
   \<and> process_chunk (projr (process_chunk init_state
            [113, 111, 105, 102, 0, 0, 0, 1, 0, 0, 0, 1, 4, 0, 255, 10, 20, 30, 255]))
         [0, 0, 0, 0, 0, 0, 0, 1]
       = Inr ((projr (process_chunk init_state
            [113, 111, 105, 102, 0, 0, 0, 1, 0, 0, 0, 1, 4, 0, 255, 10, 20, 30, 255]))
               \<lparr>pixelOffset := 12\<rparr>)
   \<and> process_chunk (projr (process_chunk init_state
            [113, 111, 105, 102, 0, 0, 0, 1, 0, 0, 0, 1, 4, 0, 255, 10, 20, 30, 255]))
         [0, 0, 0, 0, 0, 0, 0, 1, 0]
       = Inl TrailerMismatch
   \<and> process_chunk (projr (process_chunk init_state
            [113, 111, 105, 102, 0, 0, 0, 1, 0, 0, 0, 1, 4, 0, 255, 10, 20, 30, 255]))
         [0, 0, 7]
       = Inl TrailerMismatch"
proof -
  let ?S = "projr (process_chunk init_state
            [113, 111, 105, 102, 0, 0, 0, 1, 0, 0, 0, 1, 4, 0, 255, 10, 20, 30, 255])"
  let ?PX = "[10, 20, 30, 255] :: 8 word list"
  have h1: "seenHeader ?S" by code_simp
  have h2: "pixels ?S = Some ?PX" by code_simp
  have h3: "pixelOffset ?S = length ?PX" by code_simp
  note t = trailer_validated_by_position [OF h1 h2 h3]
  have "process_chunk ?S [0, 0, 0, 0, 0, 0, 0, 1] = Inr (?S\<lparr>pixelOffset := 12\<rparr>)"
    using t [of "[0, 0, 0, 0, 0, 0, 0, 1]"] by (simp add: QOI_TRAILER_def)
  moreover have "process_chunk ?S [0, 0, 0, 0, 0, 0, 0, 1, 0] = Inl TrailerMismatch"
    using t [of "[0, 0, 0, 0, 0, 0, 0, 1, 0]"] by (simp add: QOI_TRAILER_def)
  moreover have "process_chunk ?S [0, 0, 7] = Inl TrailerMismatch"
    using t [of "[0, 0, 7]"] by (simp add: QOI_TRAILER_def)
  ultimately show ?thesis using h1 h2 h3 by blast
qed

text \<open>
  C10. The Pixel Buffer has exactly \<open>width * height * 4\<close> bytes in every state the decoder
  reaches. A RUN opcode whose run length exceeds the remaining capacity makes the write
  past the end of the buffer raise a \<^verbatim>\<open>RangeError\<close>: the decode session fails, however
  the stream is cut into chunks and whatever follows the opcode.
\<close>
theorem run_beyond_capacity_fails:
  assumes "process_chunk init_state bytes = Inr s" and "ready s px"
    and "v \<le> 61" and "uint b = 192 + int v"
    and "pixelOffset s < length px" and "length px < pixelOffset s + 4 * (v + 1)"
    and "concat stream = bytes @ b # rest"
  shows "getQoiPixelData stream = Inl RangeError
       \<and> (\<exists>w h. width s = Some w \<and> height s = Some h \<and> int (length px) = w * h * 4)"
proof
  from assms(2) have wf: "length (lastPixel s) = 4"
    and sh: "seenHeader s" and px: "pixels s = Some px" and op: "op s = OP_NONE_ID"
    by (simp_all add: ready_def wf_state_def)
  let ?s1 = "s\<lparr>op := OP_RUN_ID\<rparr>"
  have r: "run_loop (v + 1) ?s1 = Inl RangeError"
    using run_loop_fail [of ?s1 px "v + 1"] px wf assms(5,6) by simp
  have "process_byte s b = opcode_byte s (uint b)"
    using sh px assms(5) by (rule process_byte_opcode)
  also have "\<dots> = Inl RangeError"
    using r by (simp add: opcode_byte_def op run_byte [OF assms(3,4)] do_RUN_def)
  finally have "process_chunk s (b # rest) = Inl RangeError" by simp
  then have "process_chunk init_state (bytes @ b # rest) = Inl RangeError"
    using assms(1) by (simp add: process_chunk_append)
  then show "getQoiPixelData stream = Inl RangeError"
    by (simp add: getQoiPixelData_def read_loop_concat assms(7))
  have "decoder_inv s" using assms(1) decoder_inv_init by (rule process_chunk_pres)
  from decoder_inv_seen [OF this sh] px
  show "\<exists>w h. width s = Some w \<and> height s = Some h \<and> int (length px) = w * h * 4"
    by auto
qed

theorem run_beyond_capacity_fails_witness:
  "process_chunk init_state [113, 111, 105, 102, 0, 0, 0, 1, 0, 0, 0, 3, 4, 0, 254, 100, 100, 100]
     = Inr (projr (process_chunk init_state
            [113, 111, 105, 102, 0, 0, 0, 1, 0, 0, 0, 3, 4, 0, 254, 100, 100, 100]))
   \<and> ready (projr (process_chunk init_state
            [113, 111, 105, 102, 0, 0, 0, 1, 0, 0, 0, 3, 4, 0, 254, 100, 100, 100]))
         [100, 100, 100, 255, 0, 0, 0, 0, 0, 0, 0, 0]
   \<and> (2 :: nat) \<le> 61 \<and> uint (194 :: 8 word) = 192 + int 2
   \<and> concat [[113, 111, 105, 102, 0, 0, 0, 1, 0, 0, 0, 3, 4, 0, 254, 100],
              [100, 100, 194, 0, 0, 0, 0, 0, 0, 0, 1]]
       = [113, 111, 105, 102, 0, 0, 0, 1, 0, 0, 0, 3, 4, 0, 254, 100, 100, 100]
         @ (194 :: 8 word) # [0, 0, 0, 0, 0, 0, 0, 1]
   \<and> getQoiPixelData [[113, 111, 105, 102, 0, 0, 0, 1, 0, 0, 0, 3, 4, 0, 254, 100],
                      [100, 100, 194, 0, 0, 0, 0, 0, 0, 0, 1]] = Inl RangeError
   \<and> (\<exists>w h. width (projr (process_chunk init_state
            [113, 111, 105, 102, 0, 0, 0, 1, 0, 0, 0, 3, 4, 0, 254, 100, 100, 100])) = Some w
         \<and> height (projr (process_chunk init_state
            [113, 111, 105, 102, 0, 0, 0, 1, 0, 0, 0, 3, 4, 0, 254, 100, 100, 100])) = Some h
         \<and> int (length [100 :: 8 word, 100, 100, 255, 0, 0, 0, 0, 0, 0, 0, 0]) = w * h * 4)"
proof -
  let ?bytes = "[113, 111, 105, 102, 0, 0, 0, 1, 0, 0, 0, 3, 4, 0, 254, 100, 100, 100] :: 8 word list"
  let ?S = "projr (process_chunk init_state ?bytes)"
  let ?PX = "[100, 100, 100, 255, 0, 0, 0, 0, 0, 0, 0, 0] :: 8 word list"
  let ?stream = "[[113, 111, 105, 102, 0, 0, 0, 1, 0, 0, 0, 3, 4, 0, 254, 100],
              [100, 100, 194, 0, 0, 0, 0, 0, 0, 0, 1]] :: 8 word list list"
  have h0: "process_chunk init_state ?bytes = Inr ?S" by code_simp
  have h1: "ready ?S ?PX" by code_simp
  have h2: "(2 :: nat) \<le> 61" by simp
  have h3: "uint (194 :: 8 word) = 192 + int 2" by simp
  have h4: "pixelOffset ?S < length ?PX" by code_simp
  have h5: "length ?PX < pixelOffset ?S + 4 * (2 + 1)" by code_simp
  have h6: "concat ?stream = ?bytes @ (194 :: 8 word) # [0, 0, 0, 0, 0, 0, 0, 1]" by simp
  from run_beyond_capacity_fails [OF h0 h1 h2 h3 h4 h5 h6] h0 h1 h2 h3 h6
  show ?thesis by blast
qed

end
